theory Spec2Isabelle
  imports Main
begin

section \<open>Data model of ChessScene.ts\<close>

text \<open>
  The rules engine lives in \<^verbatim>\<open>src/game/scenes/ChessScene.ts\<close>. Its types are
  translated one to one: the string unions \<^verbatim>\<open>PieceColor\<close> and \<^verbatim>\<open>PieceType\<close> are
  datatypes, the object types \<^verbatim>\<open>Piece\<close>, \<^verbatim>\<open>Square\<close>, \<^verbatim>\<open>Move\<close> and \<^verbatim>\<open>LastMove\<close> are
  records (\<^verbatim>\<open>Move = Square & {...}\<close> is a record extension, an absent optional field
  is \<open>None\<close>), numbers are \<open>int\<close>.
\<close>

datatype PieceColor = White | Black

datatype PieceType = Pawn | Rook | Knight | Bishop | Queen | King

record Piece =
  color :: PieceColor
  type :: PieceType
  moved :: bool
  hp :: int
  maxHp :: int

record Square =
  row :: int
  col :: int

datatype Special = Castle | EnPassant

record Move = Square +
  special :: "Special option"
  rookFromCol :: "int option"
  rookToCol :: "int option"

record LastMove =
  "from" :: Square
  to :: Square
  piece :: Piece
  wasDoublePawnStep :: bool

datatype GameState = Active | Checkmate | Stalemate

text \<open>\<^verbatim>\<open>(Piece | null)[][]\<close>: a list of rows, each a list of optional pieces.\<close>

type_synonym Board = "Piece option list list"

definition wfBoard :: "Board \<Rightarrow> bool" where
  "wfBoard board = (length board = 8 \<and> list_all (\<lambda>rw. length rw = 8) board)"

fun PIECE_HP :: "PieceType \<Rightarrow> int" where
  "PIECE_HP Pawn = 2"
| "PIECE_HP Knight = 3"
| "PIECE_HP Bishop = 3"
| "PIECE_HP Rook = 4"
| "PIECE_HP Queen = 5"
| "PIECE_HP King = 7"

fun PIECE_DAMAGE :: "PieceType \<Rightarrow> int" where
  "PIECE_DAMAGE Pawn = 1"
| "PIECE_DAMAGE Knight = 2"
| "PIECE_DAMAGE Bishop = 2"
| "PIECE_DAMAGE Rook = 3"
| "PIECE_DAMAGE Queen = 3"
| "PIECE_DAMAGE King = 2"

definition BACK_RANK :: "PieceType list" where
  "BACK_RANK = [Rook, Knight, Bishop, Queen, King, Bishop, Knight, Rook]"

definition inBounds :: "int \<Rightarrow> int \<Rightarrow> bool" where
  "inBounds r c = (r \<ge> 0 \<and> r < 8 \<and> c \<ge> 0 \<and> c < 8)"

text \<open>
  \<^verbatim>\<open>board[r][c]\<close> and \<^verbatim>\<open>board[r][c] = v\<close>. On an 8x8 board an index pair within
  \<open>0..7\<close> reads or replaces that cell. Every access of the program is either guarded
  by \<^verbatim>\<open>inBounds\<close> or made at the square of a piece found on the board or at the target
  of a generated move (\<open>getPseudoMoves_inBounds\<close> below), so the program never indexes
  outside the grid; the accessors answer \<open>None\<close> and leave the board alone there, and
  the theorems about the board that resolving an arbitrary move yields state the range
  as a hypothesis (\<open>wfBoard\<close>, \<open>moveWithinBoard\<close>).
\<close>

definition cell :: "Board \<Rightarrow> int \<Rightarrow> int \<Rightarrow> Piece option" where
  "cell board r c = (if inBounds r c then board ! nat r ! nat c else None)"

definition setCell :: "Board \<Rightarrow> int \<Rightarrow> int \<Rightarrow> Piece option \<Rightarrow> Board" where
  "setCell board r c v =
     (if inBounds r c then board[nat r := (board ! nat r)[nat c := v]] else board)"

definition createPiece :: "PieceColor \<Rightarrow> PieceType \<Rightarrow> Piece" where
  "createPiece clr ty =
     \<lparr>color = clr, type = ty, moved = False, hp = PIECE_HP ty, maxHp = PIECE_HP ty\<rparr>"

definition createInitialBoard :: Board where
  "createInitialBoard =
     [map (\<lambda>ty. Some (createPiece Black ty)) BACK_RANK,
      map (\<lambda>c. Some (createPiece Black Pawn)) [0..<8],
      replicate 8 None, replicate 8 None, replicate 8 None, replicate 8 None,
      map (\<lambda>c. Some (createPiece White Pawn)) [0..<8],
      map (\<lambda>ty. Some (createPiece White ty)) BACK_RANK]"

text \<open>\<^verbatim>\<open>{ ...piece }\<close> builds a new object with the same fields.\<close>

definition copyPiece :: "Piece \<Rightarrow> Piece" where
  "copyPiece p = \<lparr>color = color p, type = type p, moved = moved p, hp = hp p, maxHp = maxHp p\<rparr>"

definition cloneBoard :: "Board \<Rightarrow> Board" where
  "cloneBoard board =
     map (\<lambda>rw. map (\<lambda>p. case p of Some pc \<Rightarrow> Some (copyPiece pc) | None \<Rightarrow> None) rw) board"

definition getPieceDamage :: "PieceType \<Rightarrow> int" where
  "getPieceDamage ty = PIECE_DAMAGE ty"

definition enemyOf :: "PieceColor \<Rightarrow> PieceColor" where
  "enemyOf clr = (if clr = White then Black else White)"

section \<open>Move generation\<close>

definition plainMove :: "int \<Rightarrow> int \<Rightarrow> Move" where
  "plainMove r c = \<lparr>row = r, col = c, special = None, rookFromCol = None, rookToCol = None\<rparr>"

text \<open>The rows and columns visited by \<^verbatim>\<open>for (let i = 0; i < 8; i++)\<close>.\<close>

definition idx8 :: "int list" where
  "idx8 = [0, 1, 2, 3, 4, 5, 6, 7]"

text \<open>
  \<^verbatim>\<open>getKingSquare\<close>: the first square, rows outermost, that holds a king of the colour.
\<close>

definition isKingOf :: "Board \<Rightarrow> PieceColor \<Rightarrow> int \<times> int \<Rightarrow> bool" where
  "isKingOf board clr rc =
     (case cell board (fst rc) (snd rc) of
        Some pc \<Rightarrow> color pc = clr \<and> type pc = King
      | None \<Rightarrow> False)"

definition allSquares :: "(int \<times> int) list" where
  "allSquares = concat (map (\<lambda>r. map (\<lambda>c. (r, c)) idx8) idx8)"

definition getKingSquare :: "Board \<Rightarrow> PieceColor \<Rightarrow> Square option" where
  "getKingSquare board clr =
     (case find (isKingOf board clr) allSquares of
        Some rc \<Rightarrow> Some \<lparr>row = fst rc, col = snd rc\<rparr>
      | None \<Rightarrow> None)"

text \<open>The pawn branch of \<^verbatim>\<open>getPseudoMoves\<close> (\<^verbatim>\<open>this.lastMove\<close> is the first argument).\<close>

definition pawnMoves :: "LastMove option \<Rightarrow> Board \<Rightarrow> int \<Rightarrow> int \<Rightarrow> Piece \<Rightarrow> bool \<Rightarrow> Move list" where
  "pawnMoves lastMove board r c pc forAttackMap =
     (let direction = (if color pc = White then -1 else 1);
          startRow = (if color pc = White then 6 else 1);
          oneForward = r + direction;
          forward =
            (if \<not> forAttackMap \<and> inBounds oneForward c \<and> cell board oneForward c = None
             then plainMove oneForward c #
               (let twoForward = r + direction * 2
                in if r = startRow \<and> cell board twoForward c = None
                   then [plainMove twoForward c] else [])
             else []);
          diagonal = concat (map (\<lambda>delta.
            let attackRow = r + direction; attackCol = c + delta
            in if \<not> inBounds attackRow attackCol then []
               else if forAttackMap then [plainMove attackRow attackCol]
               else (case cell board attackRow attackCol of
                       Some target \<Rightarrow>
                         if color target \<noteq> color pc then [plainMove attackRow attackCol] else []
                     | None \<Rightarrow> [])) [-1, 1]);
          enPassant =
            (case lastMove of
               Some lm \<Rightarrow>
                 if \<not> forAttackMap \<and> wasDoublePawnStep lm
                 then (let enemyPawn = piece lm
                       in if type enemyPawn = Pawn \<and> color enemyPawn \<noteq> color pc \<and>
                             row (to lm) = r \<and> \<bar>col (to lm) - c\<bar> = 1
                          then (let enPassantRow = r + direction; enPassantCol = col (to lm)
                                in if inBounds enPassantRow enPassantCol \<and>
                                      cell board enPassantRow enPassantCol = None
                                   then [\<lparr>row = enPassantRow, col = enPassantCol,
                                          special = Some EnPassant,
                                          rookFromCol = None, rookToCol = None\<rparr>]
                                   else [])
                          else [])
                 else []
             | None \<Rightarrow> [])
      in forward @ diagonal @ enPassant)"

text \<open>
  A single step of the knight and of the king: onto an empty square or an enemy piece.
\<close>

definition stepMoves :: "Board \<Rightarrow> int \<Rightarrow> int \<Rightarrow> Piece \<Rightarrow> (int \<times> int) list \<Rightarrow> Move list" where
  "stepMoves board r c pc offsets =
     concat (map (\<lambda>d.
       let nextRow = r + fst d; nextCol = c + snd d
       in if \<not> inBounds nextRow nextCol then []
          else (case cell board nextRow nextCol of
                  None \<Rightarrow> [plainMove nextRow nextCol]
                | Some target \<Rightarrow>
                    if color target \<noteq> color pc then [plainMove nextRow nextCol] else []))
       offsets)"

definition jumps :: "(int \<times> int) list" where
  "jumps = [(-2, -1), (-2, 1), (-1, -2), (-1, 2), (1, -2), (1, 2), (2, -1), (2, 1)]"

definition kingSteps :: "(int \<times> int) list" where
  "kingSteps = [(-1, -1), (-1, 0), (-1, 1), (0, -1), (0, 1), (1, -1), (1, 0), (1, 1)]"

text \<open>
  The ray walk \<^verbatim>\<open>while (this.inBounds(nextRow, nextCol))\<close> of bishop, rook and queen,
  started at \<open>(row + dr, col + dc)\<close>. The source only walks its eight fixed directions;
  the test that the direction is not \<open>(0, 0)\<close> is what makes the recursion well founded
  and is true of each of them.
\<close>

function walkRay :: "Board \<Rightarrow> Piece \<Rightarrow> int \<Rightarrow> int \<Rightarrow> int \<Rightarrow> int \<Rightarrow> Move list" where
  "walkRay board pc nextRow nextCol dr dc =
     (if inBounds nextRow nextCol \<and> (dr \<noteq> 0 \<or> dc \<noteq> 0)
      then (case cell board nextRow nextCol of
              None \<Rightarrow> plainMove nextRow nextCol #
                       walkRay board pc (nextRow + dr) (nextCol + dc) dr dc
            | Some target \<Rightarrow>
                if color target \<noteq> color pc then [plainMove nextRow nextCol] else [])
      else [])"
  by pat_completeness auto
termination
  by (relation "measure (\<lambda>(board, pc, r, c, dr, dc).
        if dr > 0 then nat (8 - r) else if dr < 0 then nat (r + 1)
        else if dc > 0 then nat (8 - c) else nat (c + 1))")
     (auto simp: inBounds_def)

declare walkRay.simps [simp del]

definition rayDirections :: "PieceType \<Rightarrow> (int \<times> int) list" where
  "rayDirections ty =
     (if ty = Bishop \<or> ty = Queen then [(-1, -1), (-1, 1), (1, -1), (1, 1)] else []) @
     (if ty = Rook \<or> ty = Queen then [(-1, 0), (1, 0), (0, -1), (0, 1)] else [])"

definition sliderMoves :: "Board \<Rightarrow> int \<Rightarrow> int \<Rightarrow> Piece \<Rightarrow> Move list" where
  "sliderMoves board r c pc =
     concat (map (\<lambda>d. walkRay board pc (r + fst d) (c + snd d) (fst d) (snd d))
       (rayDirections (type pc)))"

text \<open>The two entries of the castling table in the king branch.\<close>

record CastleSide =
  rookCol :: int
  passCols :: "int list"
  kingTargetCol :: int
  rookTargetCol :: int

definition castleSides :: "CastleSide list" where
  "castleSides =
     [\<lparr>rookCol = 7, passCols = [5, 6], kingTargetCol = 6, rookTargetCol = 5\<rparr>,
      \<lparr>rookCol = 0, passCols = [1, 2, 3], kingTargetCol = 2, rookTargetCol = 3\<rparr>]"

definition castleMove :: "int \<Rightarrow> CastleSide \<Rightarrow> Move" where
  "castleMove r side =
     \<lparr>row = r, col = kingTargetCol side, special = Some Castle,
      rookFromCol = Some (rookCol side), rookToCol = Some (rookTargetCol side)\<rparr>"

definition rookReady :: "Board \<Rightarrow> int \<Rightarrow> Piece \<Rightarrow> CastleSide \<Rightarrow> bool" where
  "rookReady board r pc side =
     (case cell board r (rookCol side) of
        None \<Rightarrow> False
      | Some rook \<Rightarrow> \<not> (type rook \<noteq> Rook \<or> color rook \<noteq> color pc \<or> moved rook))"

definition blocked :: "Board \<Rightarrow> int \<Rightarrow> CastleSide \<Rightarrow> bool" where
  "blocked board r side = list_ex (\<lambda>passCol. cell board r passCol \<noteq> None) (passCols side)"

definition dangerCols :: "CastleSide \<Rightarrow> int list" where
  "dangerCols side = (if kingTargetCol side = 6 then [5, 6] else [3, 2])"

text \<open>
  \<^verbatim>\<open>getPseudoMoves\<close>, \<^verbatim>\<open>isKingInCheck\<close> and \<^verbatim>\<open>isSquareAttacked\<close> call one another:
  the king branch asks whether the king is in check and whether the squares it crosses
  are attacked, and the attack test generates the moves of every enemy piece in
  attack-map mode, where the king branch asks nothing.
\<close>

declare conj_cong [fundef_cong]

function getPseudoMoves ::
    "LastMove option \<Rightarrow> Board \<Rightarrow> int \<Rightarrow> int \<Rightarrow> Piece \<Rightarrow> bool \<Rightarrow> Move list"
  and isKingInCheck :: "LastMove option \<Rightarrow> Board \<Rightarrow> PieceColor \<Rightarrow> bool"
  and isSquareAttacked :: "LastMove option \<Rightarrow> Board \<Rightarrow> int \<Rightarrow> int \<Rightarrow> PieceColor \<Rightarrow> bool"
where
  "getPseudoMoves lastMove board r c pc forAttackMap =
     (if type pc = Pawn then pawnMoves lastMove board r c pc forAttackMap
      else if type pc = Knight then stepMoves board r c pc jumps
      else if type pc = Bishop \<or> type pc = Rook \<or> type pc = Queen
      then sliderMoves board r c pc
      else if type pc = King
      then stepMoves board r c pc kingSteps @
        (if \<not> forAttackMap \<and> \<not> moved pc \<and> \<not> isKingInCheck lastMove board (color pc)
         then concat (map (\<lambda>side.
                if \<not> rookReady board r pc side then []
                else if blocked board r side then []
                else (let enemy = enemyOf (color pc);
                          underAttack = list_ex (\<lambda>dangerCol.
                            isSquareAttacked lastMove board r dangerCol enemy) (dangerCols side)
                      in if \<not> underAttack then [castleMove r side] else []))
              castleSides)
         else [])
      else [])"
| "isKingInCheck lastMove board clr =
     (case getKingSquare board clr of
        None \<Rightarrow> False
      | Some kingSquare \<Rightarrow>
          isSquareAttacked lastMove board (row kingSquare) (col kingSquare) (enemyOf clr))"
| "isSquareAttacked lastMove board targetRow targetCol attackingColor =
     list_ex (\<lambda>r. list_ex (\<lambda>c.
       case cell board r c of
         None \<Rightarrow> False
       | Some attacker \<Rightarrow>
           if color attacker \<noteq> attackingColor then False
           else list_ex (\<lambda>move. row move = targetRow \<and> col move = targetCol)
                  (getPseudoMoves lastMove board r c attacker True)) idx8) idx8"
  by pat_completeness auto
termination
  by (relation "measure (\<lambda>x. case x of
        Inl (lastMove, board, r, c, pc, forAttackMap) \<Rightarrow> if forAttackMap then 0 else 3
      | Inr (Inl _) \<Rightarrow> 2
      | Inr (Inr _) \<Rightarrow> 1)") auto

declare getPseudoMoves.simps [simp del]
declare isKingInCheck.simps [simp del]
declare isSquareAttacked.simps [simp del]

section \<open>Legality filter and combat resolution\<close>

definition getDefenderSquareForMove :: "Board \<Rightarrow> Move \<Rightarrow> Piece \<Rightarrow> Square option" where
  "getDefenderSquareForMove board move attacker =
     (if special move = Some EnPassant
      then (let captureRow = (if color attacker = White then row move + 1 else row move - 1)
            in if \<not> inBounds captureRow (col move) then None
               else (case cell board captureRow (col move) of
                       Some defender \<Rightarrow>
                         if color defender \<noteq> color attacker
                         then Some \<lparr>row = captureRow, col = col move\<rparr> else None
                     | None \<Rightarrow> None))
      else (case cell board (row move) (col move) of
              Some defender \<Rightarrow>
                if color defender \<noteq> color attacker
                then Some \<lparr>row = row move, col = col move\<rparr> else None
            | None \<Rightarrow> None))"

text \<open>
  \<^verbatim>\<open>movePieceWithPromotion\<close> changes the board it is given and returns the moved piece:
  the model returns both.
\<close>

definition promote :: "Piece \<Rightarrow> Move \<Rightarrow> Piece" where
  "promote movedPiece move =
     (if type movedPiece = Pawn \<and> (row move = 0 \<or> row move = 7)
      then movedPiece\<lparr>type := Queen, maxHp := PIECE_HP Queen,
                      hp := min (hp movedPiece) (PIECE_HP Queen)\<rparr>
      else movedPiece)"

definition castleRook :: "Board \<Rightarrow> Move \<Rightarrow> Board" where
  "castleRook board move =
     (case (special move, rookFromCol move, rookToCol move) of
        (Some Castle, Some rookFrom, Some rookTo) \<Rightarrow>
          (let rook = cell board (row move) rookFrom;
               board1 = setCell board (row move) rookFrom None
           in case rook of
                Some rk \<Rightarrow> setCell board1 (row move) rookTo (Some ((copyPiece rk)\<lparr>moved := True\<rparr>))
              | None \<Rightarrow> board1)
      | _ \<Rightarrow> board)"

definition movePieceWithPromotion :: "Board \<Rightarrow> Square \<Rightarrow> Move \<Rightarrow> Board \<times> Piece" where
  "movePieceWithPromotion board frm move =
     (case cell board (row frm) (col frm) of
        None \<Rightarrow> (board, createPiece White Pawn)
      | Some pc \<Rightarrow>
          (let board1 = setCell board (row frm) (col frm) None;
               board2 =
                 (if special move = Some EnPassant
                  then (let captureRow = (if color pc = White then row move + 1 else row move - 1)
                        in setCell board1 captureRow (col move) None)
                  else board1);
               movedPiece = promote ((copyPiece pc)\<lparr>moved := True\<rparr>) move;
               board3 = setCell board2 (row move) (col move) (Some movedPiece)
           in (castleRook board3 move, movedPiece)))"

definition simulateResolvedBoard :: "Board \<Rightarrow> Square \<Rightarrow> Move \<Rightarrow> Board" where
  "simulateResolvedBoard board frm move =
     (let nextBoard = cloneBoard board
      in case cell nextBoard (row frm) (col frm) of
           None \<Rightarrow> nextBoard
         | Some attacker \<Rightarrow>
             (let defenderSquare = getDefenderSquareForMove board move attacker;
                  defender = (case defenderSquare of
                                Some ds \<Rightarrow> cell nextBoard (row ds) (col ds)
                              | None \<Rightarrow> None)
              in case (defenderSquare, defender) of
                   (Some ds, Some d) \<Rightarrow>
                     if color d \<noteq> color attacker
                     then (let hit = d\<lparr>hp := max 0 (hp d - getPieceDamage (type attacker))\<rparr>;
                               nextBoard1 = setCell nextBoard (row ds) (col ds) (Some hit)
                           in if hp hit \<le> 0
                              then fst (movePieceWithPromotion
                                     (setCell nextBoard1 (row ds) (col ds) None) frm move)
                              else nextBoard1)
                     else fst (movePieceWithPromotion nextBoard frm move)
                 | _ \<Rightarrow> fst (movePieceWithPromotion nextBoard frm move)))"

definition getLegalMoves :: "LastMove option \<Rightarrow> Board \<Rightarrow> Square \<Rightarrow> Move list" where
  "getLegalMoves lastMove board frm =
     (case cell board (row frm) (col frm) of
        None \<Rightarrow> []
      | Some pc \<Rightarrow>
          (let pseudoMoves = getPseudoMoves lastMove board (row frm) (col frm) pc False
           in filter (\<lambda>move.
                \<not> isKingInCheck lastMove (simulateResolvedBoard board frm move) (color pc))
                pseudoMoves))"

definition hasAnyLegalMove :: "LastMove option \<Rightarrow> Board \<Rightarrow> PieceColor \<Rightarrow> bool" where
  "hasAnyLegalMove lastMove board clr =
     list_ex (\<lambda>r. list_ex (\<lambda>c.
       case cell board r c of
         None \<Rightarrow> False
       | Some pc \<Rightarrow>
           color pc = clr \<and> length (getLegalMoves lastMove board \<lparr>row = r, col = c\<rparr>) > 0)
       idx8) idx8"

section \<open>The scene state and the committed move\<close>

text \<open>
  The fields of the scene that the rules read or write. \<^verbatim>\<open>commitMove\<close> awaits the
  attack animation between reading the board and replacing it; the animation reads the
  board and draws, and pointer input is ignored while \<^verbatim>\<open>isResolvingMove\<close> is set, so
  the commit is one step of the state.
\<close>

record Scene =
  board :: Board
  turn :: PieceColor
  gameState :: GameState
  selected :: "Square option"
  legalMoves :: "Move list"
  lastMove :: "LastMove option"
  isResolvingMove :: bool

definition evaluateGameState :: "Scene \<Rightarrow> Scene" where
  "evaluateGameState this =
     (let canMove = hasAnyLegalMove (lastMove this) (board this) (turn this)
      in if canMove then this\<lparr>gameState := Active\<rparr>
         else this\<lparr>gameState :=
                (if isKingInCheck (lastMove this) (board this) (turn this)
                 then Checkmate else Stalemate)\<rparr>)"

text \<open>
  The part of \<^verbatim>\<open>commitMove\<close> between cloning the board and assigning \<^verbatim>\<open>this.board\<close>:
  it yields \<^verbatim>\<open>nextBoard\<close>, \<^verbatim>\<open>nextPieceState\<close>, \<^verbatim>\<open>lastMoveTo\<close> and \<^verbatim>\<open>wasDoublePawnStep\<close>.
\<close>

definition completeMove ::
    "Board \<Rightarrow> Piece \<Rightarrow> Square \<Rightarrow> Move \<Rightarrow> Board \<times> Piece \<times> Square \<times> bool" where
  "completeMove nextBoard originPiece frm move =
     (let res = movePieceWithPromotion nextBoard frm move
      in (fst res, snd res, \<lparr>row = row move, col = col move\<rparr>,
          type originPiece = Pawn \<and> \<bar>row move - row frm\<bar> = 2))"

definition resolveCommit ::
    "Board \<Rightarrow> Piece \<Rightarrow> Square \<Rightarrow> Move \<Rightarrow> Board \<times> Piece \<times> Square \<times> bool" where
  "resolveCommit brd originPiece frm move =
     (let nextBoard = cloneBoard brd;
          nextPieceState = copyPiece originPiece;
          lastMoveTo = \<lparr>row = row frm, col = col frm\<rparr>;
          defenderSquare = getDefenderSquareForMove brd move originPiece;
          defender = (case defenderSquare of
                        Some ds \<Rightarrow> cell brd (row ds) (col ds)
                      | None \<Rightarrow> None)
      in case (defenderSquare, defender) of
           (Some ds, Some d) \<Rightarrow>
             if color d \<noteq> color originPiece
             then (let damage = getPieceDamage (type originPiece);
                       defenderOnBoard = cell nextBoard (row ds) (col ds)
                   in case defenderOnBoard of
                        Some dob \<Rightarrow>
                          (let hit = dob\<lparr>hp := max 0 (hp dob - damage)\<rparr>;
                               nextBoard1 = setCell nextBoard (row ds) (col ds) (Some hit)
                           in if hp hit \<le> 0
                              then completeMove (setCell nextBoard1 (row ds) (col ds) None)
                                     originPiece frm move
                              else (nextBoard1, nextPieceState, lastMoveTo, False))
                      | None \<Rightarrow> (nextBoard, nextPieceState, lastMoveTo, False))
             else completeMove nextBoard originPiece frm move
         | _ \<Rightarrow> completeMove nextBoard originPiece frm move)"

definition commitMove :: "Scene \<Rightarrow> Square \<Rightarrow> Move \<Rightarrow> Scene" where
  "commitMove this frm move =
     (if isResolvingMove this then this
      else case cell (board this) (row frm) (col frm) of
             None \<Rightarrow> this
           | Some originPiece \<Rightarrow>
               (case resolveCommit (board this) originPiece frm move of
                  (nextBoard, nextPieceState, lastMoveTo, wasDouble) \<Rightarrow>
                    (evaluateGameState
                       (this\<lparr>selected := None, legalMoves := [],
                             board := nextBoard,
                             lastMove := Some \<lparr>from = frm, to = lastMoveTo,
                                               piece = nextPieceState,
                                               wasDoublePawnStep = wasDouble\<rparr>,
                             turn := (if turn this = White then Black else White)\<rparr>))
                    \<lparr>isResolvingMove := False\<rparr>))"

definition resetGame :: "Scene \<Rightarrow> Scene" where
  "resetGame this =
     this\<lparr>board := createInitialBoard, turn := White, gameState := Active,
           selected := None, legalMoves := [], lastMove := None\<rparr>"

text \<open>
  The scene as its field initialisers leave it, and after \<^verbatim>\<open>create\<close>, which calls
  \<^verbatim>\<open>resetGame\<close> before it registers the pointer handler.
\<close>

definition newScene :: Scene where
  "newScene =
     \<lparr>board = [], turn = White, gameState = Active, selected = None, legalMoves = [],
      lastMove = None, isResolvingMove = False\<rparr>"

definition initialScene :: Scene where
  "initialScene = resetGame newScene"

text \<open>
  \<^verbatim>\<open>handleSquareClick\<close>: a click on the target of one of the moves kept for the
  selected square commits that move; a click on a piece of the side to move selects it
  and stores its legal moves; any other click clears the selection.
\<close>

definition handleSquareClick :: "Scene \<Rightarrow> int \<Rightarrow> int \<Rightarrow> Scene" where
  "handleSquareClick this r c =
     (let clickedPiece = cell (board this) r c;
          selectedMove = find (\<lambda>move. row move = r \<and> col move = c) (legalMoves this)
      in case (selected this, selectedMove) of
           (Some sel, Some move) \<Rightarrow> commitMove this sel move
         | _ \<Rightarrow>
             (case clickedPiece of
                Some cp \<Rightarrow>
                  if color cp = turn this
                  then this\<lparr>selected := Some \<lparr>row = r, col = c\<rparr>,
                            legalMoves := getLegalMoves (lastMove this) (board this)
                                            \<lparr>row = r, col = c\<rparr>\<rparr>
                  else this\<lparr>selected := None, legalMoves := []\<rparr>
              | None \<Rightarrow> this\<lparr>selected := None, legalMoves := []\<rparr>))"

text \<open>
  \<^verbatim>\<open>onPointerDown\<close>, with the row and the column that \<^verbatim>\<open>Math.floor\<close> makes of the
  pointer position: ignored unless the game is active and no move is being resolved.
\<close>

definition onPointerDown :: "Scene \<Rightarrow> int \<Rightarrow> int \<Rightarrow> Scene" where
  "onPointerDown this r c =
     (if gameState this \<noteq> Active \<or> isResolvingMove this then this
      else if \<not> inBounds r c then this\<lparr>selected := None, legalMoves := []\<rparr>
      else handleSquareClick this r c)"

text \<open>
  The scenes of a game: \<^verbatim>\<open>this.board\<close> is written by \<^verbatim>\<open>resetGame\<close> and by
  \<^verbatim>\<open>commitMove\<close> only, and \<^verbatim>\<open>commitMove\<close> is called by \<^verbatim>\<open>handleSquareClick\<close>
  only, so every scene of a game is the initial scene after a sequence of clicks.
\<close>

fun playClicks :: "Scene \<Rightarrow> (int \<times> int) list \<Rightarrow> Scene" where
  "playClicks this [] = this"
| "playClicks this (rc # rest) = playClicks (onPointerDown this (fst rc) (snd rc)) rest"

section \<open>Example positions\<close>

text \<open>Small positions on which the theorems below are exercised.\<close>

definition emptyBoard :: Board where
  "emptyBoard = replicate 8 (replicate 8 None)"

fun place :: "Board \<Rightarrow> (int \<times> int \<times> Piece) list \<Rightarrow> Board" where
  "place brd [] = brd"
| "place brd ((r, c, pc) # rest) = place (setCell brd r c (Some pc)) rest"

text \<open>White king e1, black rook e8, black king a8: White is in check on the e-file.\<close>

definition checkBoard :: Board where
  "checkBoard = place emptyBoard
     [(7, 4, createPiece White King), (0, 4, createPiece Black Rook),
      (0, 0, createPiece Black King)]"

text \<open>The same position without the white king.\<close>

definition kinglessBoard :: Board where
  "kinglessBoard = place emptyBoard
     [(0, 4, createPiece Black Rook), (0, 0, createPiece Black King)]"

section \<open>Predicates used in the statements\<close>

text \<open>
  The indices a move makes \<^verbatim>\<open>getDefenderSquareForMove\<close> and \<^verbatim>\<open>movePieceWithPromotion\<close>
  touch: its target, for en passant the square behind the target, for castling the two
  rook columns. Every generated move keeps them on the board.
\<close>

definition moveWithinBoard :: "Piece \<Rightarrow> Move \<Rightarrow> bool" where
  "moveWithinBoard attacker move =
     (inBounds (row move) (col move) \<and>
      (if special move = Some EnPassant
       then inBounds (if color attacker = White then row move + 1 else row move - 1) (col move)
       else True) \<and>
      (case (special move, rookFromCol move, rookToCol move) of
         (Some Castle, Some rookFrom, Some rookTo) \<Rightarrow>
           inBounds (row move) rookFrom \<and> inBounds (row move) rookTo
       | _ \<Rightarrow> True))"

text \<open>The invariant of the spec's data model: \<open>0 < hp \<le> maxHp\<close> for every piece on the board.\<close>

definition hpOk :: "Piece \<Rightarrow> bool" where
  "hpOk p = (0 < hp p \<and> hp p \<le> maxHp p)"

definition boardHpOk :: "Board \<Rightarrow> bool" where
  "boardHpOk brd =
     list_all (list_all (\<lambda>p. case p of None \<Rightarrow> True | Some pc \<Rightarrow> hpOk pc)) brd"

text \<open>
  The move is an attack that the defender survives: the defender square holds an enemy
  piece whose hp exceeds the attacker's damage.
\<close>

definition nonLethalAttack :: "Board \<Rightarrow> Piece \<Rightarrow> Move \<Rightarrow> bool" where
  "nonLethalAttack brd attacker move =
     (case getDefenderSquareForMove brd move attacker of
        None \<Rightarrow> False
      | Some ds \<Rightarrow>
          (case cell brd (row ds) (col ds) of
             None \<Rightarrow> False
           | Some d \<Rightarrow> hp d > getPieceDamage (type attacker)))"

text \<open>
  The board on which a completed move relocates the attacker: the defender, if the move
  has one, is taken off first.
\<close>

definition clearDefender :: "Board \<Rightarrow> Piece \<Rightarrow> Move \<Rightarrow> Board" where
  "clearDefender brd attacker move =
     (case getDefenderSquareForMove brd move attacker of
        None \<Rightarrow> brd
      | Some ds \<Rightarrow> setCell brd (row ds) (col ds) None)"

definition sceneOf :: "Board \<Rightarrow> PieceColor \<Rightarrow> LastMove option \<Rightarrow> Scene" where
  "sceneOf brd clr lm =
     \<lparr>board = brd, turn = clr, gameState = Active, selected = None, legalMoves = [],
      lastMove = lm, isResolvingMove = False\<rparr>"

text \<open>
  White pawn e4 next to a black rook on f5 (full hp 4) and a black pawn on d5 that has
  already lost one hp; kings on e1 and a8.
\<close>

definition attackBoard :: Board where
  "attackBoard = place emptyBoard
     [(7, 4, createPiece White King), (0, 0, createPiece Black King),
      (4, 4, createPiece White Pawn), (3, 5, createPiece Black Rook),
      (3, 3, (createPiece Black Pawn)\<lparr>hp := 1\<rparr>)]"

text \<open>
  White pawn c7 with one hp left, a wounded black knight on d8, kings on e1 and h8.
\<close>

definition promotionBoard :: Board where
  "promotionBoard = place emptyBoard
     [(7, 4, createPiece White King), (0, 7, createPiece Black King),
      (1, 2, (createPiece White Pawn)\<lparr>hp := 1\<rparr>),
      (0, 3, (createPiece Black Knight)\<lparr>hp := 1\<rparr>)]"

text \<open>
  White queen h7 and king e1 against the bare black king on a8: the queen going to b7
  gives check and covers a7 and b8, and the king's blow against the queen (damage 2
  against hp 5) would leave it in check.
\<close>

definition mateBoard :: Board where
  "mateBoard = place emptyBoard
     [(7, 4, createPiece White King), (0, 0, createPiece Black King),
      (1, 7, createPiece White Queen)]"

text \<open>
  White pawn e5, black pawn d7 on its starting rank, kings on e1 and h8: after
  \<open>d7\<close>-\<open>d5\<close> White may take en passant on d6.
\<close>

definition enPassantBoard :: Board where
  "enPassantBoard = place emptyBoard
     [(7, 4, createPiece White King), (0, 7, createPiece Black King),
      (3, 4, createPiece White Pawn), (1, 3, createPiece Black Pawn)]"

definition afterDoubleStep :: Scene where
  "afterDoubleStep =
     commitMove (sceneOf enPassantBoard Black None) \<lparr>row = 1, col = 3\<rparr> (plainMove 3 3)"

definition enPassantMove :: Move where
  "enPassantMove =
     \<lparr>row = 2, col = 3, special = Some EnPassant, rookFromCol = None, rookToCol = None\<rparr>"

text \<open>One move later: White has played its king from e1 to e2 and Black its king to g8.\<close>

definition afterKingMoves :: Scene where
  "afterKingMoves =
     commitMove (commitMove afterDoubleStep \<lparr>row = 7, col = 4\<rparr> (plainMove 6 4))
       \<lparr>row = 0, col = 7\<rparr> (plainMove 0 6)"

text \<open>
  The castling conditions in the words of the specification, for a king on column
  \<open>c\<close> of row \<open>r\<close> and the rook column \<open>rookColumn\<close>: the king is not in check
  when its own square is not attacked; the squares strictly between king and rook; the
  two squares the king crosses towards the rook.
\<close>

definition betweenCols :: "int \<Rightarrow> int \<Rightarrow> int list" where
  "betweenCols a b = filter (\<lambda>x. min a b < x \<and> x < max a b) idx8"

definition kingPathCols :: "int \<Rightarrow> int \<Rightarrow> int list" where
  "kingPathCols c rookColumn =
     (if c < rookColumn then [c + 1, c + 2] else [c - 1, c - 2])"

definition castleAllowed ::
    "LastMove option \<Rightarrow> Board \<Rightarrow> int \<Rightarrow> int \<Rightarrow> Piece \<Rightarrow> bool \<Rightarrow> int \<Rightarrow> bool" where
  "castleAllowed lm brd r c king forAttackMap rookColumn =
     (\<not> forAttackMap \<and> \<not> moved king \<and>
      \<not> isSquareAttacked lm brd r c (enemyOf (color king)) \<and>
      (case cell brd r rookColumn of
         None \<Rightarrow> False
       | Some rook \<Rightarrow> type rook = Rook \<and> color rook = color king \<and> \<not> moved rook) \<and>
      list_all (\<lambda>x. cell brd r x = None) (betweenCols c rookColumn) \<and>
      list_all (\<lambda>x. \<not> isSquareAttacked lm brd r x (enemyOf (color king)))
        (kingPathCols c rookColumn))"

text \<open>A castle move with the rook of column \<open>rookColumn\<close> is among the generated moves.\<close>

definition castleProduced ::
    "LastMove option \<Rightarrow> Board \<Rightarrow> int \<Rightarrow> int \<Rightarrow> Piece \<Rightarrow> bool \<Rightarrow> int \<Rightarrow> bool" where
  "castleProduced lm brd r c king forAttackMap rookColumn =
     list_ex (\<lambda>m. special m = Some Castle \<and> rookFromCol m = Some rookColumn)
       (getPseudoMoves lm brd r c king forAttackMap)"

text \<open>
  The bookkeeping of kings that castling relies on: a king that has not moved stands on
  column 4, and a colour has no second king, so that \<^verbatim>\<open>getKingSquare\<close> finds the
  square of every king on the board.
\<close>

definition kingsInv :: "Board \<Rightarrow> bool" where
  "kingsInv brd =
     (wfBoard brd \<and>
      list_all (\<lambda>rc. case cell brd (fst rc) (snd rc) of
                        None \<Rightarrow> True
                      | Some k \<Rightarrow>
                          type k \<noteq> King \<or>
                          ((moved k \<or> snd rc = 4) \<and>
                           getKingSquare brd (color k) = Some \<lparr>row = fst rc, col = snd rc\<rparr>))
        allSquares)"

text \<open>
  What holds of a scene between two clicks: no move is being resolved, and the moves
  kept for the selected square are moves of the piece on it.
\<close>

definition sceneInv :: "Scene \<Rightarrow> bool" where
  "sceneInv this =
     (\<not> isResolvingMove this \<and> kingsInv (board this) \<and>
      (case selected this of
         None \<Rightarrow> True
       | Some sel \<Rightarrow>
           (case cell (board this) (row sel) (col sel) of
              None \<Rightarrow> False
            | Some pc \<Rightarrow>
                list_all (\<lambda>m. m \<in> set (getPseudoMoves (lastMove this) (board this)
                                           (row sel) (col sel) pc False))
                  (legalMoves this))))"

text \<open>
  The clicks of the opening 1. e4 a6 2. Bc4 a5 3. Nf3 a4, after which White may castle
  on the king's side.
\<close>

definition castleClicks :: "(int \<times> int) list" where
  "castleClicks =
     [(6, 4), (4, 4), (1, 0), (2, 0), (7, 5), (4, 2), (2, 0), (3, 0),
      (7, 6), (5, 5), (3, 0), (4, 0)]"

section \<open>Boards as objects: the store behind \<^verbatim>\<open>cloneBoard\<close>\<close>

text \<open>
  In the program a board is an array of row arrays whose cells are \<^verbatim>\<open>null\<close> or
  references to piece objects, and \<^verbatim>\<open>simulateResolvedBoard\<close> writes into the rows and
  into the pieces of the board it cloned. To speak about what such writes can reach,
  this section rebuilds cloning and resolution over an explicit store: piece objects
  and row arrays live at addresses (positions in two growing lists), a board is the list
  of the addresses of its eight rows (the outer array is never written after it is
  built), allocation appends, a write replaces what is stored at an address.
\<close>

record Heap =
  pieceObjs :: "Piece list"
  rowArrays :: "nat option list list"

type_synonym BoardRef = "nat list"

definition newPiece :: "Heap \<Rightarrow> Piece \<Rightarrow> Heap \<times> nat" where
  "newPiece h p = (h\<lparr>pieceObjs := pieceObjs h @ [p]\<rparr>, length (pieceObjs h))"

definition newRow :: "Heap \<Rightarrow> nat option list \<Rightarrow> Heap \<times> nat" where
  "newRow h cells = (h\<lparr>rowArrays := rowArrays h @ [cells]\<rparr>, length (rowArrays h))"

definition refAt :: "Heap \<Rightarrow> BoardRef \<Rightarrow> int \<Rightarrow> int \<Rightarrow> nat option" where
  "refAt h brd r c = (if inBounds r c then rowArrays h ! (brd ! nat r) ! nat c else None)"

definition storeRef :: "Heap \<Rightarrow> BoardRef \<Rightarrow> int \<Rightarrow> int \<Rightarrow> nat option \<Rightarrow> Heap" where
  "storeRef h brd r c v =
     (if inBounds r c
      then h\<lparr>rowArrays := (rowArrays h)[brd ! nat r := (rowArrays h ! (brd ! nat r))[nat c := v]]\<rparr>
      else h)"

definition setPiece :: "Heap \<Rightarrow> nat \<Rightarrow> Piece \<Rightarrow> Heap" where
  "setPiece h a p = h\<lparr>pieceObjs := (pieceObjs h)[a := p]\<rparr>"

text \<open>The board value that a board reference stands for in a store.\<close>

definition derefCell :: "Heap \<Rightarrow> nat option \<Rightarrow> Piece option" where
  "derefCell h x = (case x of None \<Rightarrow> None | Some a \<Rightarrow> Some (pieceObjs h ! a))"

definition boardOf :: "Heap \<Rightarrow> BoardRef \<Rightarrow> Board" where
  "boardOf h brd = map (\<lambda>ra. map (derefCell h) (rowArrays h ! ra)) brd"

text \<open>
  \<^verbatim>\<open>board.map((row) => row.map((piece) => (piece ? { ...piece } : null)))\<close>: a new
  object for every piece, a new array for every row.
\<close>

fun cloneCells :: "Heap \<Rightarrow> nat option list \<Rightarrow> Heap \<times> nat option list" where
  "cloneCells h [] = (h, [])"
| "cloneCells h (None # xs) =
     (case cloneCells h xs of (h1, ys) \<Rightarrow> (h1, None # ys))"
| "cloneCells h (Some a # xs) =
     (case newPiece h (copyPiece (pieceObjs h ! a)) of
        (h1, a') \<Rightarrow> (case cloneCells h1 xs of (h2, ys) \<Rightarrow> (h2, Some a' # ys)))"

fun cloneRows :: "Heap \<Rightarrow> nat list \<Rightarrow> Heap \<times> nat list" where
  "cloneRows h [] = (h, [])"
| "cloneRows h (ra # ras) =
     (case cloneCells h (rowArrays h ! ra) of
        (h1, cells) \<Rightarrow>
          (case newRow h1 cells of
             (h2, ra') \<Rightarrow> (case cloneRows h2 ras of (h3, rest) \<Rightarrow> (h3, ra' # rest))))"

definition cloneBoardH :: "Heap \<Rightarrow> BoardRef \<Rightarrow> Heap \<times> BoardRef" where
  "cloneBoardH h brd = cloneRows h brd"

definition castleRookH :: "Heap \<Rightarrow> BoardRef \<Rightarrow> Move \<Rightarrow> Heap" where
  "castleRookH h brd move =
     (case (special move, rookFromCol move, rookToCol move) of
        (Some Castle, Some rookFrom, Some rookTo) \<Rightarrow>
          (let rook = refAt h brd (row move) rookFrom;
               h1 = storeRef h brd (row move) rookFrom None
           in case rook of
                Some ra \<Rightarrow>
                  (case newPiece h1 ((copyPiece (pieceObjs h1 ! ra))\<lparr>moved := True\<rparr>) of
                     (h2, a') \<Rightarrow> storeRef h2 brd (row move) rookTo (Some a'))
              | None \<Rightarrow> h1)
      | _ \<Rightarrow> h)"

definition movePieceWithPromotionH :: "Heap \<Rightarrow> BoardRef \<Rightarrow> Square \<Rightarrow> Move \<Rightarrow> Heap \<times> nat" where
  "movePieceWithPromotionH h brd frm move =
     (case refAt h brd (row frm) (col frm) of
        None \<Rightarrow> newPiece h (createPiece White Pawn)
      | Some a \<Rightarrow>
          (let pc = pieceObjs h ! a;
               h1 = storeRef h brd (row frm) (col frm) None;
               h2 =
                 (if special move = Some EnPassant
                  then (let captureRow = (if color pc = White then row move + 1 else row move - 1)
                        in storeRef h1 brd captureRow (col move) None)
                  else h1)
           in case newPiece h2 ((copyPiece pc)\<lparr>moved := True\<rparr>) of
                (h3, movedPiece) \<Rightarrow>
                  (let h4 = setPiece h3 movedPiece (promote (pieceObjs h3 ! movedPiece) move);
                       h5 = storeRef h4 brd (row move) (col move) (Some movedPiece)
                   in (castleRookH h5 brd move, movedPiece))))"

definition simulateResolvedBoardH :: "Heap \<Rightarrow> BoardRef \<Rightarrow> Square \<Rightarrow> Move \<Rightarrow> Heap \<times> BoardRef" where
  "simulateResolvedBoardH h brd frm move =
     (case cloneBoardH h brd of
        (h1, nextBoard) \<Rightarrow>
          (case refAt h1 nextBoard (row frm) (col frm) of
             None \<Rightarrow> (h1, nextBoard)
           | Some attackerRef \<Rightarrow>
               (let attacker = pieceObjs h1 ! attackerRef;
                    defenderSquare = getDefenderSquareForMove (boardOf h1 brd) move attacker;
                    defender = (case defenderSquare of
                                  Some ds \<Rightarrow> refAt h1 nextBoard (row ds) (col ds)
                                | None \<Rightarrow> None)
                in case (defenderSquare, defender) of
                     (Some ds, Some defenderRef) \<Rightarrow>
                       if color (pieceObjs h1 ! defenderRef) \<noteq> color attacker
                       then (let d = pieceObjs h1 ! defenderRef;
                                 h2 = setPiece h1 defenderRef
                                        (d\<lparr>hp := max 0 (hp d - getPieceDamage (type attacker))\<rparr>)
                             in if hp (pieceObjs h2 ! defenderRef) \<le> 0
                                then (fst (movePieceWithPromotionH
                                        (storeRef h2 nextBoard (row ds) (col ds) None)
                                        nextBoard frm move), nextBoard)
                                else (h2, nextBoard))
                       else (fst (movePieceWithPromotionH h1 nextBoard frm move), nextBoard)
                   | _ \<Rightarrow> (fst (movePieceWithPromotionH h1 nextBoard frm move), nextBoard))))"

text \<open>
  The writes a holder of a cloned board can make through it: empty a cell, put a new
  piece object into a cell, overwrite the fields of the piece object a cell refers to.
\<close>

datatype Mutation = ClearCell int int | PutPiece int int Piece | ChangePiece int int Piece

fun applyMutation :: "BoardRef \<Rightarrow> Mutation \<Rightarrow> Heap \<Rightarrow> Heap" where
  "applyMutation brd (ClearCell r c) h = storeRef h brd r c None"
| "applyMutation brd (PutPiece r c p) h =
     (case newPiece h p of (h1, a) \<Rightarrow> storeRef h1 brd r c (Some a))"
| "applyMutation brd (ChangePiece r c p) h =
     (case refAt h brd r c of Some a \<Rightarrow> setPiece h a p | None \<Rightarrow> h)"

definition applyMutations :: "BoardRef \<Rightarrow> Mutation list \<Rightarrow> Heap \<Rightarrow> Heap" where
  "applyMutations brd mus h = fold (applyMutation brd) mus h"

text \<open>
  A board reference is valid in a store when its eight rows are stored row arrays of
  eight cells whose references are stored pieces.
\<close>

definition validRef :: "Heap \<Rightarrow> nat option \<Rightarrow> bool" where
  "validRef h x = (case x of None \<Rightarrow> True | Some a \<Rightarrow> a < length (pieceObjs h))"

definition validRow :: "Heap \<Rightarrow> nat \<Rightarrow> bool" where
  "validRow h ra =
     (ra < length (rowArrays h) \<and> length (rowArrays h ! ra) = 8 \<and>
      list_all (validRef h) (rowArrays h ! ra))"

definition validBoard :: "Heap \<Rightarrow> BoardRef \<Rightarrow> bool" where
  "validBoard h brd = (length brd = 8 \<and> list_all (validRow h) brd)"

text \<open>
  The store \<open>h\<close> extends \<open>h0\<close>: every address of \<open>h0\<close> still holds what it held. A board
  is owned outside \<open>h0\<close> when none of its row arrays and none of the piece objects its
  cells refer to is an address of \<open>h0\<close>.
\<close>

definition extendsHeap :: "Heap \<Rightarrow> Heap \<Rightarrow> bool" where
  "extendsHeap h0 h =
     (take (length (pieceObjs h0)) (pieceObjs h) = pieceObjs h0 \<and>
      take (length (rowArrays h0)) (rowArrays h) = rowArrays h0)"

definition freshRef :: "Heap \<Rightarrow> Heap \<Rightarrow> nat option \<Rightarrow> bool" where
  "freshRef h0 h x =
     (case x of None \<Rightarrow> True | Some a \<Rightarrow> length (pieceObjs h0) \<le> a \<and> a < length (pieceObjs h))"

definition ownedRow :: "Heap \<Rightarrow> Heap \<Rightarrow> nat \<Rightarrow> bool" where
  "ownedRow h0 h ra =
     (length (rowArrays h0) \<le> ra \<and> ra < length (rowArrays h) \<and>
      length (rowArrays h ! ra) = 8 \<and> list_all (freshRef h0 h) (rowArrays h ! ra))"

definition ownedOutside :: "Heap \<Rightarrow> Heap \<Rightarrow> BoardRef \<Rightarrow> bool" where
  "ownedOutside h0 h brd = (length brd = 8 \<and> list_all (ownedRow h0 h) brd)"

text \<open>
  The situation kept by every write through a cloned board \<open>nb\<close>: the store extends
  the store \<open>h0\<close> in which the clone was made, and \<open>nb\<close> is owned outside \<open>h0\<close>.
\<close>

definition separate :: "Heap \<Rightarrow> Heap \<Rightarrow> BoardRef \<Rightarrow> bool" where
  "separate h0 h nb = (extendsHeap h0 h \<and> ownedOutside h0 h nb)"

text \<open>Building a board in the empty store, for the examples.\<close>

fun loadCells :: "Heap \<Rightarrow> Piece option list \<Rightarrow> Heap \<times> nat option list" where
  "loadCells h [] = (h, [])"
| "loadCells h (None # xs) = (case loadCells h xs of (h1, ys) \<Rightarrow> (h1, None # ys))"
| "loadCells h (Some p # xs) =
     (case newPiece h p of
        (h1, a) \<Rightarrow> (case loadCells h1 xs of (h2, ys) \<Rightarrow> (h2, Some a # ys)))"

fun loadRows :: "Heap \<Rightarrow> Board \<Rightarrow> Heap \<times> BoardRef" where
  "loadRows h [] = (h, [])"
| "loadRows h (rw # rws) =
     (case loadCells h rw of
        (h1, cells) \<Rightarrow>
          (case newRow h1 cells of
             (h2, ra) \<Rightarrow> (case loadRows h2 rws of (h3, rest) \<Rightarrow> (h3, ra # rest))))"

definition loadBoard :: "Board \<Rightarrow> Heap \<times> BoardRef" where
  "loadBoard brd = loadRows \<lparr>pieceObjs = [], rowArrays = []\<rparr> brd"

definition attackHeap :: Heap where
  "attackHeap = fst (loadBoard attackBoard)"

definition attackRef :: BoardRef where
  "attackRef = snd (loadBoard attackBoard)"

section \<open>Basic facts about boards, squares and the attack test\<close>

lemma copyPiece_id [simp]: "copyPiece p = p"
  by (simp add: copyPiece_def)

lemma cloneBoard_id [simp]: "cloneBoard b = b"
proof -
  have "(\<lambda>p. case p of Some pc \<Rightarrow> Some (copyPiece pc) | None \<Rightarrow> None) = (\<lambda>p::Piece option. p)"
    by (auto split: option.splits)
  then show ?thesis by (simp add: cloneBoard_def)
qed

lemma wfBoard_row: "wfBoard b \<Longrightarrow> inBounds r c \<Longrightarrow> nat r < length b \<and> length (b ! nat r) = 8 \<and> nat c < 8"
  by (auto simp: wfBoard_def inBounds_def list_all_length)

lemma wfBoard_setCell [simp]: "wfBoard (setCell b r c v) = wfBoard b"
  by (auto simp: wfBoard_def setCell_def list_all_length nth_list_update inBounds_def
      split: if_splits)

lemma cell_setCell:
  "wfBoard b \<Longrightarrow> cell (setCell b r c v) r' c' =
     (if inBounds r c \<and> r' = r \<and> c' = c then v else cell b r' c')"
  using wfBoard_row[of b r c] wfBoard_row[of b r' c']
  by (auto simp: cell_def setCell_def nth_list_update inBounds_def)

lemma cell_Some_inBounds: "cell b r c = Some p \<Longrightarrow> inBounds r c"
  by (simp add: cell_def split: if_splits)

lemma set_idx8: "(r \<in> set idx8 \<and> c \<in> set idx8) = inBounds r c"
  by (auto simp: idx8_def inBounds_def)

lemma isSquareAttacked_iff:
  "isSquareAttacked lm b tr tc ac =
     (\<exists>r c a. cell b r c = Some a \<and> color a = ac \<and>
        (\<exists>m \<in> set (getPseudoMoves lm b r c a True). row m = tr \<and> col m = tc))"
  (is "?L = ?R")
proof
  assume ?L
  then obtain r c where rc: "case cell b r c of None \<Rightarrow> False
       | Some attacker \<Rightarrow>
           if color attacker \<noteq> ac then False
           else list_ex (\<lambda>move. row move = tr \<and> col move = tc)
                  (getPseudoMoves lm b r c attacker True)"
    unfolding isSquareAttacked.simps list_ex_iff by blast
  then obtain a where a: "cell b r c = Some a" by (cases "cell b r c") auto
  with rc have "color a = ac"
    and "list_ex (\<lambda>move. row move = tr \<and> col move = tc) (getPseudoMoves lm b r c a True)"
    by (auto split: if_splits)
  with a show ?R unfolding list_ex_iff by blast
next
  assume ?R
  then obtain r c a m where h: "cell b r c = Some a" "color a = ac"
     "m \<in> set (getPseudoMoves lm b r c a True)" "row m = tr" "col m = tc" by blast
  from h(1) have "inBounds r c" by (rule cell_Some_inBounds)
  then have "r \<in> set idx8" "c \<in> set idx8" using set_idx8 by blast+
  moreover have "case cell b r c of None \<Rightarrow> False
       | Some attacker \<Rightarrow>
           if color attacker \<noteq> ac then False
           else list_ex (\<lambda>move. row move = tr \<and> col move = tc)
                  (getPseudoMoves lm b r c attacker True)"
    using h by (auto simp: list_ex_iff)
  ultimately show ?L
    unfolding isSquareAttacked.simps list_ex_iff by blast
qed

lemma set_allSquares: "(rc \<in> set allSquares) = inBounds (fst rc) (snd rc)"
  by (cases rc) (auto simp: allSquares_def set_idx8[symmetric])

lemma isKingOf_iff:
  "isKingOf b clr (r, c) = (\<exists>k. cell b r c = Some k \<and> color k = clr \<and> type k = King)"
  by (auto simp: isKingOf_def split: option.splits)

lemma getKingSquare_None_iff:
  "(getKingSquare b clr = None) =
     (\<forall>r c k. cell b r c = Some k \<longrightarrow> color k = clr \<longrightarrow> type k \<noteq> King)"
proof -
  have "(getKingSquare b clr = None) = (find (isKingOf b clr) allSquares = None)"
    by (simp add: getKingSquare_def split: option.splits)
  also have "\<dots> = (\<forall>r c. inBounds r c \<longrightarrow> \<not> isKingOf b clr (r, c))"
    by (auto simp: find_None_iff set_allSquares)
  also have "\<dots> = (\<forall>r c k. cell b r c = Some k \<longrightarrow> color k = clr \<longrightarrow> type k \<noteq> King)"
    using cell_Some_inBounds by (fastforce simp: isKingOf_iff)
  finally show ?thesis .
qed

lemma getKingSquare_Some:
  assumes "getKingSquare b clr = Some ks"
  shows "\<exists>k. cell b (row ks) (col ks) = Some k \<and> color k = clr \<and> type k = King"
proof -
  from assms obtain rc where f: "find (isKingOf b clr) allSquares = Some rc"
    and ks: "ks = \<lparr>row = fst rc, col = snd rc\<rparr>"
    by (auto simp: getKingSquare_def split: option.splits)
  from f have "isKingOf b clr rc" by (auto simp: find_Some_iff)
  then have "isKingOf b clr (fst rc, snd rc)" by simp
  then show ?thesis unfolding isKingOf_iff using ks by simp
qed

lemma isKingInCheck_iff:
  "isKingInCheck lm b clr =
     (\<exists>ks. getKingSquare b clr = Some ks \<and>
        isSquareAttacked lm b (row ks) (col ks) (enemyOf clr))"
  unfolding isKingInCheck.simps by (auto split: option.splits)

section \<open>Check detection\<close>

text \<open>
  C8. On a board with no king of the colour, \<^verbatim>\<open>isKingInCheck\<close> answers false. When
  the board has a king of the colour, \<^verbatim>\<open>getKingSquare\<close> finds a square holding one (the
  king's square when there is only one), and \<^verbatim>\<open>isKingInCheck\<close> answers true exactly
  when some piece of the other colour generates, in attack-map mode, a move onto that
  square.
\<close>

theorem isKingInCheck_exact:
  "((\<forall>r c k. cell b r c = Some k \<longrightarrow> color k = clr \<longrightarrow> type k \<noteq> King) \<longrightarrow>
      \<not> isKingInCheck lm b clr) \<and>
   (\<forall>kr kc k. cell b kr kc = Some k \<and> color k = clr \<and> type k = King \<longrightarrow>
      (\<exists>ks k'. getKingSquare b clr = Some ks \<and>
         cell b (row ks) (col ks) = Some k' \<and> color k' = clr \<and> type k' = King \<and>
         ((\<forall>r c p. cell b r c = Some p \<and> color p = clr \<and> type p = King \<longrightarrow> r = kr \<and> c = kc)
            \<longrightarrow> row ks = kr \<and> col ks = kc) \<and>
         (isKingInCheck lm b clr \<longleftrightarrow>
            (\<exists>r c a. cell b r c = Some a \<and> color a = enemyOf clr \<and>
               (\<exists>m \<in> set (getPseudoMoves lm b r c a True).
                  row m = row ks \<and> col m = col ks)))))"
proof (intro conjI allI impI)
  assume "\<forall>r c k. cell b r c = Some k \<longrightarrow> color k = clr \<longrightarrow> type k \<noteq> King"
  then have "getKingSquare b clr = None" by (simp add: getKingSquare_None_iff)
  then show "\<not> isKingInCheck lm b clr" by (simp add: isKingInCheck_iff)
next
  fix kr kc k
  assume k: "cell b kr kc = Some k \<and> color k = clr \<and> type k = King"
  then have "getKingSquare b clr \<noteq> None" unfolding getKingSquare_None_iff by blast
  then obtain ks where ks: "getKingSquare b clr = Some ks" by blast
  from getKingSquare_Some [OF ks] obtain k' where
    k': "cell b (row ks) (col ks) = Some k'" "color k' = clr" "type k' = King" by blast
  have "isKingInCheck lm b clr \<longleftrightarrow>
      (\<exists>r c a. cell b r c = Some a \<and> color a = enemyOf clr \<and>
         (\<exists>m \<in> set (getPseudoMoves lm b r c a True). row m = row ks \<and> col m = col ks))"
    using ks by (simp add: isKingInCheck_iff isSquareAttacked_iff)
  with ks k' show "\<exists>ks k'. getKingSquare b clr = Some ks \<and>
         cell b (row ks) (col ks) = Some k' \<and> color k' = clr \<and> type k' = King \<and>
         ((\<forall>r c p. cell b r c = Some p \<and> color p = clr \<and> type p = King \<longrightarrow> r = kr \<and> c = kc)
            \<longrightarrow> row ks = kr \<and> col ks = kc) \<and>
         (isKingInCheck lm b clr \<longleftrightarrow>
            (\<exists>r c a. cell b r c = Some a \<and> color a = enemyOf clr \<and>
               (\<exists>m \<in> set (getPseudoMoves lm b r c a True).
                  row m = row ks \<and> col m = col ks)))"
    by blast
qed

theorem isKingInCheck_exact_witness:
  "\<not> isKingInCheck None kinglessBoard White \<and>
   getKingSquare checkBoard White = Some \<lparr>row = 7, col = 4\<rparr> \<and>
   isKingInCheck None checkBoard White \<and>
   (\<exists>r c a. cell checkBoard r c = Some a \<and> color a = Black \<and>
      (\<exists>m \<in> set (getPseudoMoves None checkBoard r c a True). row m = 7 \<and> col m = 4))"
proof -
  have "getKingSquare kinglessBoard White = None" by code_simp
  then have noKing: "\<forall>r c k. cell kinglessBoard r c = Some k \<longrightarrow> color k = White \<longrightarrow>
      type k \<noteq> King"
    by (simp add: getKingSquare_None_iff)
  have king: "cell checkBoard 7 4 = Some (createPiece White King) \<and>
      color (createPiece White King) = White \<and> type (createPiece White King) = King"
    by code_simp
  have ks: "getKingSquare checkBoard White = Some \<lparr>row = 7, col = 4\<rparr>" by code_simp
  have chk: "isKingInCheck None checkBoard White" by code_simp
  have e: "enemyOf White = Black" by (simp add: enemyOf_def)
  from isKingInCheck_exact [of kinglessBoard White None] noKing
  have a: "\<not> isKingInCheck None kinglessBoard White" by blast
  from isKingInCheck_exact [of checkBoard White None] king ks chk e
  have "\<exists>r c a. cell checkBoard r c = Some a \<and> color a = Black \<and>
      (\<exists>m \<in> set (getPseudoMoves None checkBoard r c a True). row m = 7 \<and> col m = 4)"
    by fastforce
  with a ks chk show ?thesis by blast
qed

section \<open>Facts about the committed move\<close>

lemma setCell_setCell:
  "wfBoard b \<Longrightarrow> setCell (setCell b r c v) r c w = setCell b r c w"
  using wfBoard_row[of b r c] by (auto simp: setCell_def)

lemma getDefenderSquareForMove_Some:
  assumes "getDefenderSquareForMove b move a = Some ds"
  shows "\<exists>d. cell b (row ds) (col ds) = Some d \<and> color d \<noteq> color a"
    and "col ds = col move"
    and "row ds = (if special move = Some EnPassant
                   then (if color a = White then row move + 1 else row move - 1)
                   else row move)"
  using assms
  by (auto simp: getDefenderSquareForMove_def Let_def split: if_splits option.splits)

lemma evaluateGameState_fields [simp]:
  "board (evaluateGameState s) = board s"
  "turn (evaluateGameState s) = turn s"
  "lastMove (evaluateGameState s) = lastMove s"
  "selected (evaluateGameState s) = selected s"
  "legalMoves (evaluateGameState s) = legalMoves s"
  "isResolvingMove (evaluateGameState s) = isResolvingMove s"
  by (simp_all add: evaluateGameState_def Let_def)

lemma evaluateGameState_gameState:
  "gameState (evaluateGameState s) =
     (if hasAnyLegalMove (lastMove s) (board s) (turn s) then Active
      else if isKingInCheck (lastMove s) (board s) (turn s) then Checkmate else Stalemate)"
  by (simp add: evaluateGameState_def Let_def)

lemma commitMove_fields:
  assumes "\<not> isResolvingMove s"
    and "cell (board s) (row frm) (col frm) = Some origin"
    and "resolveCommit (board s) origin frm move = (nb, ps, lt, wd)"
  shows "board (commitMove s frm move) = nb"
    and "lastMove (commitMove s frm move) =
           Some \<lparr>from = frm, to = lt, piece = ps, wasDoublePawnStep = wd\<rparr>"
    and "turn (commitMove s frm move) = (if turn s = White then Black else White)"
    and "gameState (commitMove s frm move) =
           (let lm = Some \<lparr>from = frm, to = lt, piece = ps, wasDoublePawnStep = wd\<rparr>;
                t = (if turn s = White then Black else White)
            in if hasAnyLegalMove lm nb t then Active
               else if isKingInCheck lm nb t then Checkmate else Stalemate)"
    and "isResolvingMove (commitMove s frm move) = False"
  using assms by (simp_all add: commitMove_def evaluateGameState_gameState Let_def)

lemma resolveCommit_nonLethal:
  assumes "wfBoard b"
    and "getDefenderSquareForMove b move a = Some ds"
    and "cell b (row ds) (col ds) = Some d"
    and "hp d > getPieceDamage (type a)"
  shows "resolveCommit b a frm move =
           (setCell b (row ds) (col ds) (Some (d\<lparr>hp := hp d - getPieceDamage (type a)\<rparr>)),
            a, frm, False)"
proof -
  from getDefenderSquareForMove_Some(1) [OF assms(2)] assms(3)
  have "color d \<noteq> color a" by auto
  with assms show ?thesis
    by (simp add: resolveCommit_def Let_def max_def)
qed

lemma resolveCommit_complete:
  assumes "wfBoard b" and "\<not> nonLethalAttack b a move"
  shows "resolveCommit b a frm move = completeMove (clearDefender b a move) a frm move"
proof (cases "getDefenderSquareForMove b move a")
  case None
  then show ?thesis by (simp add: resolveCommit_def clearDefender_def)
next
  case (Some ds)
  from getDefenderSquareForMove_Some(1) [OF Some]
  obtain d where d: "cell b (row ds) (col ds) = Some d" "color d \<noteq> color a" by blast
  with assms(2) Some have "\<not> hp d > getPieceDamage (type a)"
    by (simp add: nonLethalAttack_def)
  with Some d assms(1) show ?thesis
    by (simp add: resolveCommit_def clearDefender_def Let_def max_def setCell_setCell)
qed

lemma simulate_eq_resolveCommit:
  assumes "cell b (row frm) (col frm) = Some origin"
  shows "simulateResolvedBoard b frm move = fst (resolveCommit b origin frm move)"
proof (cases "getDefenderSquareForMove b move origin")
  case None
  with assms show ?thesis
    by (simp add: simulateResolvedBoard_def resolveCommit_def completeMove_def Let_def)
next
  case (Some ds)
  from getDefenderSquareForMove_Some(1) [OF Some]
  obtain d where d: "cell b (row ds) (col ds) = Some d" "color d \<noteq> color origin" by blast
  with Some assms show ?thesis
    by (simp add: simulateResolvedBoard_def resolveCommit_def completeMove_def Let_def)
qed

section \<open>Simulation and commit resolve a move alike\<close>

text \<open>
  C10. For a board, an origin square holding a piece and a move whose squares lie on the
  board, the board returned by \<^verbatim>\<open>simulateResolvedBoard\<close> is the \<^verbatim>\<open>nextBoard\<close> that
  \<^verbatim>\<open>commitMove\<close> computes and installs as \<^verbatim>\<open>this.board\<close>: the two are equal as
  values, hence square by square and field by field.
\<close>

theorem simulate_equals_commit:
  assumes "wfBoard (board s)"
    and "\<not> isResolvingMove s"
    and "cell (board s) (row frm) (col frm) = Some origin"
    and "moveWithinBoard origin move"
  shows "simulateResolvedBoard (board s) frm move = fst (resolveCommit (board s) origin frm move) \<and>
         board (commitMove s frm move) = simulateResolvedBoard (board s) frm move \<and>
         (\<forall>r c. cell (board (commitMove s frm move)) r c =
                cell (simulateResolvedBoard (board s) frm move) r c)"
proof -
  obtain nb ps lt wd where res: "resolveCommit (board s) origin frm move = (nb, ps, lt, wd)"
    by (cases "resolveCommit (board s) origin frm move") auto
  have sim: "simulateResolvedBoard (board s) frm move = nb"
    using simulate_eq_resolveCommit [OF assms(3), of move] res by simp
  have "board (commitMove s frm move) = nb"
    using commitMove_fields(1) [OF assms(2,3) res] .
  with sim res show ?thesis by simp
qed

theorem simulate_equals_commit_witness:
  "wfBoard attackBoard \<and>
   cell attackBoard 4 4 = Some (createPiece White Pawn) \<and>
   moveWithinBoard (createPiece White Pawn) (plainMove 3 5) \<and>
   board (commitMove (sceneOf attackBoard White None) \<lparr>row = 4, col = 4\<rparr> (plainMove 3 5)) =
     simulateResolvedBoard attackBoard \<lparr>row = 4, col = 4\<rparr> (plainMove 3 5)"
proof -
  let ?s = "sceneOf attackBoard White None"
  have h1: "wfBoard (board ?s)" by code_simp
  have h2: "\<not> isResolvingMove ?s" by code_simp
  have h3: "cell (board ?s) (row \<lparr>row = 4, col = 4\<rparr>) (col \<lparr>row = 4, col = 4\<rparr>)
              = Some (createPiece White Pawn)" by code_simp
  have h4: "moveWithinBoard (createPiece White Pawn) (plainMove 3 5)" by code_simp
  have b: "board ?s = attackBoard" by (simp add: sceneOf_def)
  from simulate_equals_commit [OF h1 h2 h3 h4] h1 h3 h4 b
  show ?thesis by simp
qed

section \<open>Non-lethal combat\<close>



section \<open>Relocation, promotion and the hp invariant\<close>

lemma wfBoard_castleRook [simp]: "wfBoard (castleRook b m) = wfBoard b"
  by (simp add: castleRook_def Let_def split: option.splits Special.splits)

lemma wfBoard_movePiece [simp]: "wfBoard (fst (movePieceWithPromotion b frm m)) = wfBoard b"
  by (simp add: movePieceWithPromotion_def Let_def split: option.splits)

lemma boardHpOk_iff:
  assumes "wfBoard b"
  shows "boardHpOk b = (\<forall>r c p. cell b r c = Some p \<longrightarrow> hpOk p)"
proof
  assume ok: "boardHpOk b"
  show "\<forall>r c p. cell b r c = Some p \<longrightarrow> hpOk p"
  proof (intro allI impI)
    fix r c p assume p: "cell b r c = Some p"
    then have ib: "inBounds r c" by (rule cell_Some_inBounds)
    from wfBoard_row [OF assms ib] have "nat r < length b" "nat c < length (b ! nat r)" by auto
    with ok have "case b ! nat r ! nat c of None \<Rightarrow> True | Some pc \<Rightarrow> hpOk pc"
      by (simp add: boardHpOk_def list_all_length)
    with p ib show "hpOk p" by (simp add: cell_def)
  qed
next
  assume all: "\<forall>r c p. cell b r c = Some p \<longrightarrow> hpOk p"
  have "\<And>i j. i < length b \<Longrightarrow> j < length (b ! i) \<Longrightarrow>
      (case b ! i ! j of None \<Rightarrow> True | Some pc \<Rightarrow> hpOk pc)"
  proof -
    fix i j assume i: "i < length b" and j: "j < length (b ! i)"
    from assms i have "length (b ! i) = 8" "length b = 8"
      by (auto simp: wfBoard_def list_all_length)
    with i j have "inBounds (int i) (int j)" by (simp add: inBounds_def)
    then have "cell b (int i) (int j) = b ! i ! j" by (simp add: cell_def)
    with all show "case b ! i ! j of None \<Rightarrow> True | Some pc \<Rightarrow> hpOk pc"
      by (cases "b ! i ! j") auto
  qed
  then show "boardHpOk b" by (simp add: boardHpOk_def list_all_length)
qed

lemma boardHpOk_setCell:
  assumes "wfBoard b" and "boardHpOk b" and "\<And>p. v = Some p \<Longrightarrow> hpOk p"
  shows "boardHpOk (setCell b r c v)"
proof -
  have "wfBoard (setCell b r c v)" using assms(1) by simp
  then show ?thesis
    using assms by (auto simp: boardHpOk_iff cell_setCell split: if_splits)
qed

lemma hpOk_promote: "hpOk p \<Longrightarrow> hpOk (promote (p\<lparr>moved := True\<rparr>) m)"
  by (auto simp: hpOk_def promote_def)

lemma boardHpOk_castleRook:
  assumes "wfBoard b" and "boardHpOk b"
  shows "boardHpOk (castleRook b m)"
proof (cases "\<exists>rf rt. special m = Some Castle \<and> rookFromCol m = Some rf \<and> rookToCol m = Some rt")
  case False
  then have "castleRook b m = b"
    by (auto simp: castleRook_def split: option.splits Special.splits)
  with assms show ?thesis by simp
next
  case True
  then obtain rf rt where c: "special m = Some Castle" "rookFromCol m = Some rf"
    "rookToCol m = Some rt" by blast
  let ?b1 = "setCell b (row m) rf None"
  have b1: "wfBoard ?b1" "boardHpOk ?b1"
    using assms by (auto intro: boardHpOk_setCell)
  show ?thesis
  proof (cases "cell b (row m) rf")
    case None
    with c b1 show ?thesis by (simp add: castleRook_def)
  next
    case (Some rk)
    with assms have "hpOk rk" by (auto simp: boardHpOk_iff)
    then have "hpOk (rk\<lparr>moved := True\<rparr>)" by (simp add: hpOk_def)
    with b1 have "boardHpOk (setCell ?b1 (row m) rt (Some (rk\<lparr>moved := True\<rparr>)))"
      by (auto intro: boardHpOk_setCell)
    with c Some show ?thesis by (simp add: castleRook_def)
  qed
qed

lemma boardHpOk_movePiece:
  assumes "wfBoard b" and "boardHpOk b"
  shows "boardHpOk (fst (movePieceWithPromotion b frm m))"
proof (cases "cell b (row frm) (col frm)")
  case None
  with assms show ?thesis by (simp add: movePieceWithPromotion_def)
next
  case (Some pc)
  with assms have ok: "hpOk pc" by (auto simp: boardHpOk_iff)
  let ?b1 = "setCell b (row frm) (col frm) None"
  let ?b2 = "if special m = Some EnPassant
             then setCell ?b1 (if color pc = White then row m + 1 else row m - 1) (col m) None
             else ?b1"
  let ?b3 = "setCell ?b2 (row m) (col m) (Some (promote (pc\<lparr>moved := True\<rparr>) m))"
  have b1: "wfBoard ?b1" "boardHpOk ?b1" using assms by (auto intro: boardHpOk_setCell)
  then have b2: "wfBoard ?b2" "boardHpOk ?b2" by (auto intro: boardHpOk_setCell)
  have b3w: "wfBoard ?b3" using b2(1) by simp
  have b3: "boardHpOk ?b3"
    by (rule boardHpOk_setCell [OF b2]) (use hpOk_promote [OF ok, of m] in simp)
  have eq: "fst (movePieceWithPromotion b frm m) = castleRook ?b3 m"
    using Some by (simp add: movePieceWithPromotion_def Let_def)
  show ?thesis unfolding eq by (rule boardHpOk_castleRook [OF b3w b3])
qed

lemma getPieceDamage_pos: "0 < getPieceDamage ty"
  by (cases ty) (simp_all add: getPieceDamage_def)

lemma boardHpOk_clearDefender:
  "wfBoard b \<Longrightarrow> boardHpOk b \<Longrightarrow> boardHpOk (clearDefender b a m) \<and> wfBoard (clearDefender b a m)"
  by (auto simp: clearDefender_def intro: boardHpOk_setCell split: option.splits)

lemma boardHpOk_resolveCommit:
  assumes "wfBoard b" and "boardHpOk b"
  shows "boardHpOk (fst (resolveCommit b a frm m))"
proof (cases "nonLethalAttack b a m")
  case False
  from resolveCommit_complete [OF assms(1) False, of frm]
  have "fst (resolveCommit b a frm m) = fst (movePieceWithPromotion (clearDefender b a m) frm m)"
    by (simp add: completeMove_def Let_def)
  with boardHpOk_clearDefender [OF assms, of a m] show ?thesis
    by (simp add: boardHpOk_movePiece)
next
  case True
  then obtain ds d where ds: "getDefenderSquareForMove b m a = Some ds"
    and d: "cell b (row ds) (col ds) = Some d" and big: "hp d > getPieceDamage (type a)"
    by (auto simp: nonLethalAttack_def split: option.splits)
  from d assms have "hpOk d" by (auto simp: boardHpOk_iff)
  with big getPieceDamage_pos [of "type a"]
  have "hpOk (d\<lparr>hp := hp d - getPieceDamage (type a)\<rparr>)" by (simp add: hpOk_def)
  then have "boardHpOk (setCell b (row ds) (col ds)
      (Some (d\<lparr>hp := hp d - getPieceDamage (type a)\<rparr>)))"
    using assms by (auto intro: boardHpOk_setCell)
  then show ?thesis using resolveCommit_nonLethal [OF assms(1) ds d big, of frm] by simp
qed

lemma boardHpOk_simulate:
  assumes "wfBoard b" and "boardHpOk b"
  shows "boardHpOk (simulateResolvedBoard b frm m)"
proof (cases "cell b (row frm) (col frm)")
  case None
  with assms show ?thesis by (simp add: simulateResolvedBoard_def)
next
  case (Some a)
  then show ?thesis
    using simulate_eq_resolveCommit [OF Some, of m] boardHpOk_resolveCommit [OF assms] by simp
qed

lemma boardHpOk_commitMove:
  assumes "wfBoard (board s)" and "boardHpOk (board s)"
  shows "boardHpOk (board (commitMove s frm m))"
proof (cases "isResolvingMove s \<or> cell (board s) (row frm) (col frm) = None")
  case True
  with assms show ?thesis by (auto simp: commitMove_def)
next
  case False
  then obtain a where a: "cell (board s) (row frm) (col frm) = Some a"
    and nr: "\<not> isResolvingMove s" by auto
  obtain nb ps lt wd where res: "resolveCommit (board s) a frm m = (nb, ps, lt, wd)"
    by (cases "resolveCommit (board s) a frm m") auto
  from commitMove_fields(1) [OF nr a res] boardHpOk_resolveCommit [OF assms, of a frm m] res
  show ?thesis by simp
qed

lemma cell_outside: "\<not> inBounds r c \<Longrightarrow> cell b r c = None"
  by (simp add: cell_def)

lemma castleRook_other: "special m \<noteq> Some Castle \<Longrightarrow> castleRook x m = x"
  by (auto simp: castleRook_def split: option.splits Special.splits)

lemma movePiece_cell:
  assumes "wfBoard b" and "cell b (row frm) (col frm) = Some pc"
    and "special m \<noteq> Some Castle" and "inBounds (row m) (col m)"
  shows "cell (fst (movePieceWithPromotion b frm m)) r c =
     (if r = row m \<and> c = col m then Some (promote (pc\<lparr>moved := True\<rparr>) m)
      else if r = row frm \<and> c = col frm then None
      else if special m = Some EnPassant \<and> c = col m \<and>
              r = (if color pc = White then row m + 1 else row m - 1)
      then None
      else cell b r c)"
proof -
  let ?cap = "if color pc = White then row m + 1 else row m - 1"
  let ?b1 = "setCell b (row frm) (col frm) None"
  let ?b2 = "if special m = Some EnPassant then setCell ?b1 ?cap (col m) None else ?b1"
  let ?mp = "promote (pc\<lparr>moved := True\<rparr>) m"
  let ?b3 = "setCell ?b2 (row m) (col m) (Some ?mp)"
  have fin: "inBounds (row frm) (col frm)" using assms(2) by (rule cell_Some_inBounds)
  have eq: "fst (movePieceWithPromotion b frm m) = ?b3"
    using assms(2,3) by (simp add: movePieceWithPromotion_def Let_def castleRook_other)
  have w1: "wfBoard ?b1" using assms(1) by simp
  have w2: "wfBoard ?b2" using assms(1) by simp
  have c1: "cell ?b1 r c = (if r = row frm \<and> c = col frm then None else cell b r c)"
    using assms(1) fin by (simp add: cell_setCell)
  have c2: "cell ?b2 r c =
      (if special m = Some EnPassant \<and> c = col m \<and> r = ?cap then None else cell ?b1 r c)"
  proof (cases "special m = Some EnPassant")
    case False
    then show ?thesis by simp
  next
    case True
    show ?thesis
    proof (cases "inBounds ?cap (col m)")
      case True
      with \<open>special m = Some EnPassant\<close> w1 show ?thesis
        by (simp add: cell_setCell)
    next
      case False
      then have "setCell ?b1 ?cap (col m) None = ?b1" by (simp add: setCell_def)
      moreover have "c = col m \<and> r = ?cap \<Longrightarrow> cell ?b1 r c = None"
        using False by (simp add: cell_outside)
      ultimately show ?thesis using True by auto
    qed
  qed
  have c3: "cell ?b3 r c = (if r = row m \<and> c = col m then Some ?mp else cell ?b2 r c)"
    using w2 assms(4) by (simp only: cell_setCell) simp
  show ?thesis unfolding eq c3 c2 c1 by auto
qed

lemma clearDefender_origin:
  assumes "wfBoard b" and "cell b (row frm) (col frm) = Some a"
  shows "wfBoard (clearDefender b a m)"
    and "cell (clearDefender b a m) (row frm) (col frm) = Some a"
proof -
  show "wfBoard (clearDefender b a m)"
    using assms(1) by (simp add: clearDefender_def split: option.splits)
  show "cell (clearDefender b a m) (row frm) (col frm) = Some a"
  proof (cases "getDefenderSquareForMove b m a")
    case None
    with assms show ?thesis by (simp add: clearDefender_def)
  next
    case (Some ds)
    from getDefenderSquareForMove_Some(1) [OF Some] assms(2)
    have "(row frm, col frm) \<noteq> (row ds, col ds)" by auto
    with Some assms show ?thesis by (auto simp: clearDefender_def cell_setCell)
  qed
qed

lemma completed_board:
  assumes "wfBoard b" and "\<not> nonLethalAttack b a m"
  shows "fst (resolveCommit b a frm m) = fst (movePieceWithPromotion (clearDefender b a m) frm m)"
    and "fst (snd (resolveCommit b a frm m)) = snd (movePieceWithPromotion (clearDefender b a m) frm m)"
    and "fst (snd (snd (resolveCommit b a frm m))) = \<lparr>row = row m, col = col m\<rparr>"
    and "snd (snd (snd (resolveCommit b a frm m))) = (type a = Pawn \<and> \<bar>row m - row frm\<bar> = 2)"
  using resolveCommit_complete [OF assms, of frm]
  by (simp_all add: completeMove_def Let_def)

lemma movePiece_returns:
  "cell b (row frm) (col frm) = Some pc \<Longrightarrow>
   snd (movePieceWithPromotion b frm m) = promote (pc\<lparr>moved := True\<rparr>) m"
  by (simp add: movePieceWithPromotion_def Let_def)

section \<open>The hp invariant\<close>

text \<open>
  C3. The initial board satisfies \<open>0 < hp \<le> maxHp\<close> at every piece (there \<open>hp = maxHp\<close>),
  and from a board that satisfies it both \<^verbatim>\<open>simulateResolvedBoard\<close> and \<^verbatim>\<open>commitMove\<close>
  produce a board that satisfies it. When the damage brings the defender's hp to zero or
  below, the defender is taken off its square before the attacker is relocated: after a
  move that is not a castle the defender's square holds the relocated attacker if it is
  the move's target and is empty otherwise.
\<close>

theorem hp_invariant_preserved:
  "wfBoard createInitialBoard \<and>
   (\<forall>r c p. cell createInitialBoard r c = Some p \<longrightarrow> 0 < hp p \<and> hp p \<le> maxHp p) \<and>
   (wfBoard (board s) \<and> boardHpOk (board s) \<and>
    cell (board s) (row frm) (col frm) = Some attacker \<and> moveWithinBoard attacker move \<longrightarrow>
      (\<forall>r c p. cell (simulateResolvedBoard (board s) frm move) r c = Some p \<longrightarrow>
         0 < hp p \<and> hp p \<le> maxHp p) \<and>
      (\<forall>r c p. cell (board (commitMove s frm move)) r c = Some p \<longrightarrow>
         0 < hp p \<and> hp p \<le> maxHp p) \<and>
      (\<forall>ds d. getDefenderSquareForMove (board s) move attacker = Some ds \<and>
         cell (board s) (row ds) (col ds) = Some d \<and>
         hp d - getPieceDamage (type attacker) \<le> 0 \<longrightarrow>
           simulateResolvedBoard (board s) frm move =
             fst (movePieceWithPromotion (setCell (board s) (row ds) (col ds) None) frm move) \<and>
           (\<not> isResolvingMove s \<longrightarrow>
              board (commitMove s frm move) =
                fst (movePieceWithPromotion (setCell (board s) (row ds) (col ds) None) frm move)) \<and>
           (special move \<noteq> Some Castle \<longrightarrow>
              cell (simulateResolvedBoard (board s) frm move) (row ds) (col ds) =
                (if row ds = row move \<and> col ds = col move
                 then Some (promote (attacker\<lparr>moved := True\<rparr>) move) else None))))"
proof (intro conjI impI)
  show wf0: "wfBoard createInitialBoard" by code_simp
  have "boardHpOk createInitialBoard" by code_simp
  with wf0 show "\<forall>r c p. cell createInitialBoard r c = Some p \<longrightarrow> 0 < hp p \<and> hp p \<le> maxHp p"
    by (simp add: boardHpOk_iff hpOk_def)
next
  assume h: "wfBoard (board s) \<and> boardHpOk (board s) \<and>
    cell (board s) (row frm) (col frm) = Some attacker \<and> moveWithinBoard attacker move"
  then have wf: "wfBoard (board s)" and ok: "boardHpOk (board s)"
    and a: "cell (board s) (row frm) (col frm) = Some attacker"
    and tin: "inBounds (row move) (col move)"
    by (auto simp: moveWithinBoard_def)
  have wsim: "wfBoard (simulateResolvedBoard (board s) frm move)"
  proof (cases "nonLethalAttack (board s) attacker move")
    case False
    with wf a show ?thesis
      by (simp add: simulate_eq_resolveCommit completed_board(1) clearDefender_origin(1))
  next
    case True
    then obtain ds d where "getDefenderSquareForMove (board s) move attacker = Some ds"
      "cell (board s) (row ds) (col ds) = Some d" "hp d > getPieceDamage (type attacker)"
      by (auto simp: nonLethalAttack_def split: option.splits)
    from resolveCommit_nonLethal [OF wf this, of frm] wf a show ?thesis
      by (simp add: simulate_eq_resolveCommit)
  qed
  show "\<forall>r c p. cell (simulateResolvedBoard (board s) frm move) r c = Some p \<longrightarrow>
         0 < hp p \<and> hp p \<le> maxHp p"
    using boardHpOk_simulate [OF wf ok, of frm move] wsim
    by (simp add: boardHpOk_iff hpOk_def)
  have wcom: "wfBoard (board (commitMove s frm move))"
  proof (cases "isResolvingMove s")
    case True
    with wf show ?thesis by (simp add: commitMove_def)
  next
    case False
    obtain nb ps lt wd where res: "resolveCommit (board s) attacker frm move = (nb, ps, lt, wd)"
      by (cases "resolveCommit (board s) attacker frm move") auto
    from commitMove_fields(1) [OF False a res] simulate_eq_resolveCommit [OF a, of move] res wsim
    show ?thesis by simp
  qed
  show "\<forall>r c p. cell (board (commitMove s frm move)) r c = Some p \<longrightarrow>
         0 < hp p \<and> hp p \<le> maxHp p"
    using boardHpOk_commitMove [OF wf ok, of frm move] wcom
    by (simp add: boardHpOk_iff hpOk_def)
  show "\<forall>ds d. getDefenderSquareForMove (board s) move attacker = Some ds \<and>
         cell (board s) (row ds) (col ds) = Some d \<and>
         hp d - getPieceDamage (type attacker) \<le> 0 \<longrightarrow>
           simulateResolvedBoard (board s) frm move =
             fst (movePieceWithPromotion (setCell (board s) (row ds) (col ds) None) frm move) \<and>
           (\<not> isResolvingMove s \<longrightarrow>
              board (commitMove s frm move) =
                fst (movePieceWithPromotion (setCell (board s) (row ds) (col ds) None) frm move)) \<and>
           (special move \<noteq> Some Castle \<longrightarrow>
              cell (simulateResolvedBoard (board s) frm move) (row ds) (col ds) =
                (if row ds = row move \<and> col ds = col move
                 then Some (promote (attacker\<lparr>moved := True\<rparr>) move) else None))"
  proof (intro allI impI, elim conjE)
    fix ds d
    assume ds: "getDefenderSquareForMove (board s) move attacker = Some ds"
      and d: "cell (board s) (row ds) (col ds) = Some d"
      and lethal: "hp d - getPieceDamage (type attacker) \<le> 0"
    let ?b1 = "setCell (board s) (row ds) (col ds) None"
    let ?nb = "fst (movePieceWithPromotion ?b1 frm move)"
    from ds d lethal have nl: "\<not> nonLethalAttack (board s) attacker move"
      by (simp add: nonLethalAttack_def)
    have cd: "clearDefender (board s) attacker move = ?b1"
      using ds by (simp add: clearDefender_def)
    have sim: "simulateResolvedBoard (board s) frm move = ?nb"
      using simulate_eq_resolveCommit [OF a, of move] completed_board(1) [OF wf nl, of frm] cd
      by simp
    have com: "\<not> isResolvingMove s \<longrightarrow> board (commitMove s frm move) = ?nb"
    proof
      assume nr: "\<not> isResolvingMove s"
      obtain nb ps lt wd where res: "resolveCommit (board s) attacker frm move = (nb, ps, lt, wd)"
        by (cases "resolveCommit (board s) attacker frm move") auto
      from commitMove_fields(1) [OF nr a res] completed_board(1) [OF wf nl, of frm] cd res
      show "board (commitMove s frm move) = ?nb" by simp
    qed
    have cl: "special move \<noteq> Some Castle \<longrightarrow>
        cell ?nb (row ds) (col ds) =
          (if row ds = row move \<and> col ds = col move
           then Some (promote (attacker\<lparr>moved := True\<rparr>) move) else None)"
    proof
      assume nc: "special move \<noteq> Some Castle"
      have w1: "wfBoard ?b1" using wf by simp
      have a1: "cell ?b1 (row frm) (col frm) = Some attacker"
        using clearDefender_origin(2) [OF wf a, of move] cd by simp
      have dsIn: "inBounds (row ds) (col ds)" using d by (rule cell_Some_inBounds)
      have e: "cell ?b1 (row ds) (col ds) = None" using wf dsIn by (simp add: cell_setCell)
      show "cell ?nb (row ds) (col ds) =
          (if row ds = row move \<and> col ds = col move
           then Some (promote (attacker\<lparr>moved := True\<rparr>) move) else None)"
        unfolding movePiece_cell [OF w1 a1 nc tin] using e by simp
    qed
    from sim com cl show "simulateResolvedBoard (board s) frm move = ?nb \<and>
           (\<not> isResolvingMove s \<longrightarrow> board (commitMove s frm move) = ?nb) \<and>
           (special move \<noteq> Some Castle \<longrightarrow>
              cell (simulateResolvedBoard (board s) frm move) (row ds) (col ds) =
                (if row ds = row move \<and> col ds = col move
                 then Some (promote (attacker\<lparr>moved := True\<rparr>) move) else None))"
      by simp
  qed
qed

theorem hp_invariant_preserved_witness:
  "wfBoard attackBoard \<and> boardHpOk attackBoard \<and>
   cell attackBoard 4 4 = Some (createPiece White Pawn) \<and>
   moveWithinBoard (createPiece White Pawn) (plainMove 3 3) \<and>
   cell (simulateResolvedBoard attackBoard \<lparr>row = 4, col = 4\<rparr> (plainMove 3 3)) 3 3 =
     Some ((createPiece White Pawn)\<lparr>moved := True\<rparr>) \<and>
   0 < hp ((createPiece White Pawn)\<lparr>moved := True\<rparr>) \<and>
   hp ((createPiece White Pawn)\<lparr>moved := True\<rparr>) \<le> maxHp ((createPiece White Pawn)\<lparr>moved := True\<rparr>)"
proof -
  let ?s = "sceneOf attackBoard White None"
  let ?f = "\<lparr>row = 4, col = 4\<rparr> :: Square"
  let ?m = "plainMove 3 3"
  let ?a = "createPiece White Pawn"
  let ?ds = "\<lparr>row = 3, col = 3\<rparr> :: Square"
  let ?d = "(createPiece Black Pawn)\<lparr>hp := 1\<rparr>"
  have b: "board ?s = attackBoard" by (simp add: sceneOf_def)
  have hyp: "wfBoard (board ?s) \<and> boardHpOk (board ?s) \<and>
      cell (board ?s) (row ?f) (col ?f) = Some ?a \<and> moveWithinBoard ?a ?m" by code_simp
  have dsq: "getDefenderSquareForMove (board ?s) ?m ?a = Some ?ds \<and>
      cell (board ?s) (row ?ds) (col ?ds) = Some ?d \<and>
      hp ?d - getPieceDamage (type ?a) \<le> 0" by code_simp
  have nc: "special ?m \<noteq> Some Castle" by (simp add: plainMove_def)
  note T = hp_invariant_preserved [of ?s ?f ?a ?m]
  from T hyp have inv: "\<forall>r c p. cell (simulateResolvedBoard (board ?s) ?f ?m) r c = Some p \<longrightarrow>
      0 < hp p \<and> hp p \<le> maxHp p" by blast
  from T hyp have "\<forall>ds d. getDefenderSquareForMove (board ?s) ?m ?a = Some ds \<and>
         cell (board ?s) (row ds) (col ds) = Some d \<and>
         hp d - getPieceDamage (type ?a) \<le> 0 \<longrightarrow>
           (special ?m \<noteq> Some Castle \<longrightarrow>
              cell (simulateResolvedBoard (board ?s) ?f ?m) (row ds) (col ds) =
                (if row ds = row ?m \<and> col ds = col ?m
                 then Some (promote (?a\<lparr>moved := True\<rparr>) ?m) else None))" by blast
  with dsq nc have "cell (simulateResolvedBoard (board ?s) ?f ?m) (row ?ds) (col ?ds) =
      (if row ?ds = row ?m \<and> col ?ds = col ?m
       then Some (promote (?a\<lparr>moved := True\<rparr>) ?m) else None)" by blast
  then have c: "cell (simulateResolvedBoard attackBoard ?f ?m) 3 3 = Some (?a\<lparr>moved := True\<rparr>)"
    by (simp add: b plainMove_def promote_def createPiece_def)
  from inv [unfolded b, rule_format, OF c]
  have "0 < hp (?a\<lparr>moved := True\<rparr>) \<and> hp (?a\<lparr>moved := True\<rparr>) \<le> maxHp (?a\<lparr>moved := True\<rparr>)" .
  with hyp c show ?thesis by (simp add: b)
qed

section \<open>Promotion\<close>

text \<open>
  C4. A pawn whose move is completed, as a plain relocation or after lethal combat, and
  lands on its farthest rank (row 0 for White, row 7 for Black) stands on the target
  square as a queen with \<open>maxHp = 5\<close>, the queen's maximum, and
  \<open>hp = min (hp before) 5\<close>, which is never more than the hp before; \<^verbatim>\<open>commitMove\<close> and
  \<^verbatim>\<open>simulateResolvedBoard\<close> agree on it and the queen is the piece recorded in
  \<^verbatim>\<open>lastMove\<close>. Pawn moves are never castles (\<open>pawnMoves_not_castle\<close>).
\<close>

theorem pawn_promotion:
  assumes "wfBoard (board s)"
    and "\<not> isResolvingMove s"
    and "cell (board s) (row frm) (col frm) = Some pawn"
    and "type pawn = Pawn"
    and "moveWithinBoard pawn move"
    and "special move \<noteq> Some Castle"
    and "\<not> nonLethalAttack (board s) pawn move"
    and "(color pawn = White \<and> row move = 0) \<or> (color pawn = Black \<and> row move = 7)"
  shows "\<exists>q. cell (board (commitMove s frm move)) (row move) (col move) = Some q \<and>
           cell (simulateResolvedBoard (board s) frm move) (row move) (col move) = Some q \<and>
           (\<exists>l. lastMove (commitMove s frm move) = Some l \<and> piece l = q \<and>
                to l = \<lparr>row = row move, col = col move\<rparr>) \<and>
           type q = Queen \<and> maxHp q = PIECE_HP Queen \<and> maxHp q = 5 \<and>
           hp q = min (hp pawn) 5 \<and> hp q \<le> hp pawn \<and>
           color q = color pawn \<and> moved q"
proof -
  let ?b1 = "clearDefender (board s) pawn move"
  let ?q = "promote (pawn\<lparr>moved := True\<rparr>) move"
  have tin: "inBounds (row move) (col move)" using assms(5) by (simp add: moveWithinBoard_def)
  note cb = completed_board [OF assms(1,7), of frm]
  note cd = clearDefender_origin [OF assms(1,3), of move]
  obtain nb ps lt wd where res: "resolveCommit (board s) pawn frm move = (nb, ps, lt, wd)"
    by (cases "resolveCommit (board s) pawn frm move") auto
  have nb: "nb = fst (movePieceWithPromotion ?b1 frm move)" using cb(1) res by simp
  have ps: "ps = ?q" using cb(2) res movePiece_returns [OF cd(2), of move] by simp
  have lt: "lt = \<lparr>row = row move, col = col move\<rparr>" using cb(3) res by simp
  have com: "board (commitMove s frm move) = nb"
    by (rule commitMove_fields(1) [OF assms(2,3) res])
  have lm: "lastMove (commitMove s frm move) =
      Some \<lparr>from = frm, to = lt, piece = ps, wasDoublePawnStep = wd\<rparr>"
    by (rule commitMove_fields(2) [OF assms(2,3) res])
  have sim: "simulateResolvedBoard (board s) frm move = nb"
    using simulate_eq_resolveCommit [OF assms(3), of move] res by simp
  have c: "cell nb (row move) (col move) = Some ?q"
    unfolding nb movePiece_cell [OF cd(1) cd(2) assms(6) tin] by simp
  have q: "?q = pawn\<lparr>moved := True, type := Queen, maxHp := 5, hp := min (hp pawn) 5\<rparr>"
    using assms(4,8) by (auto simp: promote_def)
  show ?thesis
    unfolding com sim lm using c q ps lt by simp
qed

theorem pawn_promotion_witness:
  "cell promotionBoard 1 2 = Some ((createPiece White Pawn)\<lparr>hp := 1\<rparr>) \<and>
   \<not> nonLethalAttack promotionBoard ((createPiece White Pawn)\<lparr>hp := 1\<rparr>) (plainMove 0 3) \<and>
   (\<exists>q. cell (board (commitMove (sceneOf promotionBoard White None) \<lparr>row = 1, col = 2\<rparr>
                     (plainMove 0 3))) 0 3 = Some q \<and>
        type q = Queen \<and> maxHp q = 5 \<and> hp q = 1)"
proof -
  let ?s = "sceneOf promotionBoard White None"
  let ?f = "\<lparr>row = 1, col = 2\<rparr> :: Square"
  let ?m = "plainMove 0 3"
  let ?p = "(createPiece White Pawn)\<lparr>hp := 1\<rparr>"
  have b: "board ?s = promotionBoard" by (simp add: sceneOf_def)
  have h1: "wfBoard (board ?s)" by code_simp
  have h2: "\<not> isResolvingMove ?s" by code_simp
  have h3: "cell (board ?s) (row ?f) (col ?f) = Some ?p" by code_simp
  have h4: "type ?p = Pawn" by code_simp
  have h5: "moveWithinBoard ?p ?m" by code_simp
  have h6: "special ?m \<noteq> Some Castle" by code_simp
  have h7: "\<not> nonLethalAttack (board ?s) ?p ?m" by code_simp
  have h8: "(color ?p = White \<and> row ?m = 0) \<or> (color ?p = Black \<and> row ?m = 7)" by code_simp
  have m: "row ?m = 0" "col ?m = 3" by (simp_all add: plainMove_def)
  have hp1: "min (hp ?p) 5 = 1" by simp
  from pawn_promotion [OF h1 h2 h3 h4 h5 h6 h7 h8]
  obtain q where "cell (board (commitMove ?s ?f ?m)) (row ?m) (col ?m) = Some q"
    "type q = Queen" "maxHp q = 5" "hp q = min (hp ?p) 5" by blast
  then have "\<exists>q. cell (board (commitMove ?s ?f ?m)) 0 3 = Some q \<and>
        type q = Queen \<and> maxHp q = 5 \<and> hp q = 1"
    unfolding m hp1 by blast
  with h3 h7 show ?thesis by (simp add: b)
qed

section \<open>Game status after a commit\<close>

lemma hasAnyLegalMove_iff:
  "hasAnyLegalMove lm b clr =
     (\<exists>r c p. cell b r c = Some p \<and> color p = clr \<and>
        getLegalMoves lm b \<lparr>row = r, col = c\<rparr> \<noteq> [])"
  (is "?L = ?R")
proof
  assume ?L
  then obtain r c where rc: "case cell b r c of None \<Rightarrow> False
       | Some pc \<Rightarrow> color pc = clr \<and> length (getLegalMoves lm b \<lparr>row = r, col = c\<rparr>) > 0"
    unfolding hasAnyLegalMove_def list_ex_iff by blast
  then obtain p where "cell b r c = Some p" by (cases "cell b r c") auto
  with rc show ?R by auto
next
  assume ?R
  then obtain r c p where h: "cell b r c = Some p" "color p = clr"
    "getLegalMoves lm b \<lparr>row = r, col = c\<rparr> \<noteq> []" by blast
  from h(1) have "inBounds r c" by (rule cell_Some_inBounds)
  then have "r \<in> set idx8" "c \<in> set idx8" using set_idx8 by blast+
  moreover have "case cell b r c of None \<Rightarrow> False
       | Some pc \<Rightarrow> color pc = clr \<and> length (getLegalMoves lm b \<lparr>row = r, col = c\<rparr>) > 0"
    using h by simp
  ultimately show ?L unfolding hasAnyLegalMove_def list_ex_iff by blast
qed

text \<open>
  C7. A committed move hands the turn to the other colour and sets the status for that
  colour on the new board with the new last-move record: \<open>Active\<close> exactly when some
  piece of that colour has a non-empty list of legal moves, otherwise \<open>Checkmate\<close>
  exactly when \<^verbatim>\<open>isKingInCheck\<close> holds for that colour and \<open>Stalemate\<close> exactly when it
  does not.
\<close>

theorem status_after_commit:
  assumes "wfBoard (board s)"
    and "\<not> isResolvingMove s"
    and "cell (board s) (row frm) (col frm) = Some origin"
    and "moveWithinBoard origin move"
  shows "turn (commitMove s frm move) = enemyOf (turn s) \<and>
         turn (commitMove s frm move) \<noteq> turn s \<and>
         (gameState (commitMove s frm move) = Active \<longleftrightarrow>
            (\<exists>r c p. cell (board (commitMove s frm move)) r c = Some p \<and>
               color p = turn (commitMove s frm move) \<and>
               getLegalMoves (lastMove (commitMove s frm move)) (board (commitMove s frm move))
                 \<lparr>row = r, col = c\<rparr> \<noteq> [])) \<and>
         (gameState (commitMove s frm move) = Checkmate \<longleftrightarrow>
            \<not> (\<exists>r c p. cell (board (commitMove s frm move)) r c = Some p \<and>
               color p = turn (commitMove s frm move) \<and>
               getLegalMoves (lastMove (commitMove s frm move)) (board (commitMove s frm move))
                 \<lparr>row = r, col = c\<rparr> \<noteq> []) \<and>
            isKingInCheck (lastMove (commitMove s frm move)) (board (commitMove s frm move))
              (turn (commitMove s frm move))) \<and>
         (gameState (commitMove s frm move) = Stalemate \<longleftrightarrow>
            \<not> (\<exists>r c p. cell (board (commitMove s frm move)) r c = Some p \<and>
               color p = turn (commitMove s frm move) \<and>
               getLegalMoves (lastMove (commitMove s frm move)) (board (commitMove s frm move))
                 \<lparr>row = r, col = c\<rparr> \<noteq> []) \<and>
            \<not> isKingInCheck (lastMove (commitMove s frm move)) (board (commitMove s frm move))
              (turn (commitMove s frm move)))"
proof -
  obtain nb ps lt wd where res: "resolveCommit (board s) origin frm move = (nb, ps, lt, wd)"
    by (cases "resolveCommit (board s) origin frm move") auto
  note f = commitMove_fields [OF assms(2,3) res]
  have t: "turn (commitMove s frm move) = enemyOf (turn s)"
    using f(3) by (simp add: enemyOf_def)
  have t': "enemyOf (turn s) \<noteq> turn s" by (simp add: enemyOf_def)
  have g: "gameState (commitMove s frm move) =
      (if hasAnyLegalMove (lastMove (commitMove s frm move)) (board (commitMove s frm move))
            (turn (commitMove s frm move)) then Active
       else if isKingInCheck (lastMove (commitMove s frm move)) (board (commitMove s frm move))
            (turn (commitMove s frm move)) then Checkmate else Stalemate)"
    unfolding f(1) f(2) f(3) f(4) by (simp add: Let_def)
  show ?thesis
    unfolding hasAnyLegalMove_iff [symmetric] using g t t' by auto
qed

theorem status_after_commit_witness:
  "wfBoard mateBoard \<and>
   cell mateBoard 1 7 = Some (createPiece White Queen) \<and>
   moveWithinBoard (createPiece White Queen) (plainMove 1 1) \<and>
   turn (commitMove (sceneOf mateBoard White None) \<lparr>row = 1, col = 7\<rparr> (plainMove 1 1)) = Black \<and>
   gameState (commitMove (sceneOf mateBoard White None) \<lparr>row = 1, col = 7\<rparr> (plainMove 1 1))
     = Checkmate \<and>
   isKingInCheck
     (lastMove (commitMove (sceneOf mateBoard White None) \<lparr>row = 1, col = 7\<rparr> (plainMove 1 1)))
     (board (commitMove (sceneOf mateBoard White None) \<lparr>row = 1, col = 7\<rparr> (plainMove 1 1)))
     Black"
proof -
  let ?s = "sceneOf mateBoard White None"
  let ?f = "\<lparr>row = 1, col = 7\<rparr> :: Square"
  let ?m = "plainMove 1 1"
  have b: "board ?s = mateBoard" "turn ?s = White" by (simp_all add: sceneOf_def)
  have h1: "wfBoard (board ?s)" by code_simp
  have h2: "\<not> isResolvingMove ?s" by code_simp
  have h3: "cell (board ?s) (row ?f) (col ?f) = Some (createPiece White Queen)" by code_simp
  have h4: "moveWithinBoard (createPiece White Queen) ?m" by code_simp
  have g: "gameState (commitMove ?s ?f ?m) = Checkmate" by code_simp
  note T = status_after_commit [OF h1 h2 h3 h4]
  from T have t: "turn (commitMove ?s ?f ?m) = Black" by (simp add: b enemyOf_def)
  from T g have "isKingInCheck (lastMove (commitMove ?s ?f ?m)) (board (commitMove ?s ?f ?m))
      (turn (commitMove ?s ?f ?m))" by blast
  with t g h1 h3 h4 show ?thesis by (simp add: b)
qed

section \<open>The shape of generated moves\<close>

lemma moveWithinBoard_plain: "inBounds r c \<Longrightarrow> moveWithinBoard pc (plainMove r c)"
  by (simp add: moveWithinBoard_def plainMove_def)

lemma walkRay_plain:
  "m \<in> set (walkRay b pc r c dr dc) \<Longrightarrow> \<exists>r' c'. m = plainMove r' c' \<and> inBounds r' c'"
proof (induction b pc r c dr dc rule: walkRay.induct)
  case (1 board pc nextRow nextCol dr dc)
  show ?case
  proof (cases "inBounds nextRow nextCol \<and> (dr \<noteq> 0 \<or> dc \<noteq> 0)")
    case False
    with "1.prems" show ?thesis by (simp add: walkRay.simps [of board pc nextRow nextCol])
  next
    case True
    show ?thesis
    proof (cases "cell board nextRow nextCol")
      case None
      with True "1.prems"
      have "m = plainMove nextRow nextCol \<or>
            m \<in> set (walkRay board pc (nextRow + dr) (nextCol + dc) dr dc)"
        by (simp add: walkRay.simps [of board pc nextRow nextCol])
      with "1.IH" [OF True None] True show ?thesis by blast
    next
      case (Some target)
      with True "1.prems" have "m = plainMove nextRow nextCol"
        by (simp add: walkRay.simps [of board pc nextRow nextCol] split: if_splits)
      with True show ?thesis by blast
    qed
  qed
qed

lemma stepMoves_plain:
  "m \<in> set (stepMoves b r c pc offsets) \<Longrightarrow> \<exists>r' c'. m = plainMove r' c' \<and> inBounds r' c'"
  by (auto simp: stepMoves_def Let_def split: if_splits option.splits)

lemma sliderMoves_plain:
  "m \<in> set (sliderMoves b r c pc) \<Longrightarrow> \<exists>r' c'. m = plainMove r' c' \<and> inBounds r' c'"
  by (auto simp: sliderMoves_def dest: walkRay_plain)

lemma pawnMoves_shape:
  assumes "m \<in> set (pawnMoves lm b r c pc fam)" and "inBounds r c"
  shows "(\<exists>r' c'. m = plainMove r' c' \<and> inBounds r' c') \<or>
         (\<not> fam \<and> (\<exists>l. lm = Some l \<and> wasDoublePawnStep l \<and> type (piece l) = Pawn \<and>
            color (piece l) \<noteq> color pc \<and> row (to l) = r \<and> \<bar>col (to l) - c\<bar> = 1 \<and>
            inBounds (r + (if color pc = White then -1 else 1)) (col (to l)) \<and>
            cell b (r + (if color pc = White then -1 else 1)) (col (to l)) = None \<and>
            m = \<lparr>row = r + (if color pc = White then -1 else 1), col = col (to l),
                 special = Some EnPassant, rookFromCol = None, rookToCol = None\<rparr>))"
proof -
  let ?dir = "if color pc = White then -1 else (1::int)"
  let ?start = "if color pc = White then 6 else (1::int)"
  let ?fwd = "if \<not> fam \<and> inBounds (r + ?dir) c \<and> cell b (r + ?dir) c = None
     then plainMove (r + ?dir) c #
       (if r = ?start \<and> cell b (r + ?dir * 2) c = None then [plainMove (r + ?dir * 2) c] else [])
     else []"
  let ?diag = "concat (map (\<lambda>delta.
      if \<not> inBounds (r + ?dir) (c + delta) then []
      else if fam then [plainMove (r + ?dir) (c + delta)]
      else (case cell b (r + ?dir) (c + delta) of
              Some target \<Rightarrow>
                if color target \<noteq> color pc then [plainMove (r + ?dir) (c + delta)] else []
            | None \<Rightarrow> [])) [-1, 1])"
  let ?ep = "case lm of
       Some l \<Rightarrow>
         if \<not> fam \<and> wasDoublePawnStep l
         then (if type (piece l) = Pawn \<and> color (piece l) \<noteq> color pc \<and>
                  row (to l) = r \<and> \<bar>col (to l) - c\<bar> = 1
               then (if inBounds (r + ?dir) (col (to l)) \<and> cell b (r + ?dir) (col (to l)) = None
                     then [\<lparr>row = r + ?dir, col = col (to l), special = Some EnPassant,
                            rookFromCol = None, rookToCol = None\<rparr>]
                     else [])
               else [])
         else []
     | None \<Rightarrow> []"
  have split3: "pawnMoves lm b r c pc fam = ?fwd @ ?diag @ ?ep"
    by (cases lm) (simp_all add: pawnMoves_def Let_def)
  from assms(1) consider "m \<in> set ?fwd" | "m \<in> set ?diag" | "m \<in> set ?ep"
    unfolding split3 by auto
  then show ?thesis
  proof cases
    case 1
    have "r = ?start \<Longrightarrow> inBounds (r + ?dir * 2) c"
      using assms(2) by (auto simp: inBounds_def)
    with 1 show ?thesis by (auto split: if_splits)
  next
    case 2
    then show ?thesis by (auto split: if_splits option.splits)
  next
    case 3
    then show ?thesis by (cases lm) (auto split: if_splits)
  qed
qed

lemma pawnMoves_enPassant_iff:
  "(\<exists>m \<in> set (pawnMoves lm b r c pc fam). special m = Some EnPassant) =
     (\<not> fam \<and> (\<exists>l. lm = Some l \<and> wasDoublePawnStep l \<and> type (piece l) = Pawn \<and>
        color (piece l) \<noteq> color pc \<and> row (to l) = r \<and> \<bar>col (to l) - c\<bar> = 1 \<and>
        inBounds (r + (if color pc = White then -1 else 1)) (col (to l)) \<and>
        cell b (r + (if color pc = White then -1 else 1)) (col (to l)) = None))"
  by (cases lm) (auto simp: pawnMoves_def Let_def plainMove_def split: if_splits option.splits)

lemma pawnMoves_not_castle:
  "m \<in> set (pawnMoves lm b r c pc fam) \<Longrightarrow> special m \<noteq> Some Castle"
  by (cases lm) (auto simp: pawnMoves_def Let_def plainMove_def split: if_splits option.splits)

lemma castle_part_shape:
  assumes "m \<in> set (concat (map (\<lambda>side.
                if \<not> rookReady b r pc side then []
                else if blocked b r side then []
                else (let enemy = enemyOf (color pc);
                          underAttack = list_ex (\<lambda>dangerCol.
                            isSquareAttacked lm b r dangerCol enemy) (dangerCols side)
                      in if \<not> underAttack then [castleMove r side] else []))
              castleSides))"
  shows "\<exists>side \<in> set castleSides. m = castleMove r side"
  using assms by (auto simp: Let_def split: if_splits)

lemma getPseudoMoves_shape:
  assumes "m \<in> set (getPseudoMoves lm b r c pc fam)" and "inBounds r c"
  shows "(\<exists>r' c'. m = plainMove r' c' \<and> inBounds r' c') \<or>
         (type pc = Pawn \<and> m \<in> set (pawnMoves lm b r c pc fam) \<and> special m = Some EnPassant) \<or>
         (type pc = King \<and> \<not> fam \<and> (\<exists>side \<in> set castleSides. m = castleMove r side))"
proof (cases "type pc")
  case Pawn
  with assms(1) have "m \<in> set (pawnMoves lm b r c pc fam)"
    by (simp add: getPseudoMoves.simps)
  with pawnMoves_shape [OF this assms(2)] Pawn show ?thesis by auto
next
  case Knight
  with assms(1) show ?thesis by (auto simp: getPseudoMoves.simps dest: stepMoves_plain)
next
  case Rook
  with assms(1) show ?thesis by (auto simp: getPseudoMoves.simps dest: sliderMoves_plain)
next
  case Bishop
  with assms(1) show ?thesis by (auto simp: getPseudoMoves.simps dest: sliderMoves_plain)
next
  case Queen
  with assms(1) show ?thesis by (auto simp: getPseudoMoves.simps dest: sliderMoves_plain)
next
  case King
  with assms(1) have "m \<in> set (stepMoves b r c pc kingSteps) \<or>
      (\<not> fam \<and> (\<exists>side \<in> set castleSides. m = castleMove r side))"
    by (auto simp: getPseudoMoves.simps [of lm b r c pc fam] dest!: castle_part_shape
        split: if_splits)
  with King show ?thesis by (auto dest: stepMoves_plain)
qed

text \<open>Every generated move keeps on the board all the squares that resolving it touches.\<close>

lemma getPseudoMoves_inBounds:
  assumes "m \<in> set (getPseudoMoves lm b r c pc fam)" and "inBounds r c"
  shows "moveWithinBoard pc m"
proof -
  from getPseudoMoves_shape [OF assms]
  consider (plain) r' c' where "m = plainMove r' c'" "inBounds r' c'"
    | (ep) "type pc = Pawn" "m \<in> set (pawnMoves lm b r c pc fam)" "special m = Some EnPassant"
    | (castle) side where "side \<in> set castleSides" "m = castleMove r side"
    by blast
  then show ?thesis
  proof cases
    case plain
    then show ?thesis by (simp add: moveWithinBoard_plain)
  next
    case ep
    have "\<not> (\<exists>r' c'. m = plainMove r' c' \<and> inBounds r' c')"
      using ep(3) by (auto simp: plainMove_def)
    with pawnMoves_shape [OF ep(2) assms(2)]
    obtain tc where "inBounds (r + (if color pc = White then -1 else 1)) tc"
      "m = \<lparr>row = r + (if color pc = White then -1 else 1), col = tc,
            special = Some EnPassant, rookFromCol = None, rookToCol = None\<rparr>"
      by blast
    with assms(2) show ?thesis by (auto simp: moveWithinBoard_def inBounds_def)
  next
    case castle
    with assms(2) show ?thesis
      by (auto simp: moveWithinBoard_def castleSides_def castleMove_def inBounds_def)
  qed
qed

section \<open>En passant\<close>

lemma commitMove_lastMove:
  assumes "wfBoard (board s)" and "\<not> isResolvingMove s"
    and "cell (board s) (row frm) (col frm) = Some origin"
  shows "lastMove (commitMove s frm move) =
     Some (if nonLethalAttack (board s) origin move
           then \<lparr>from = frm, to = frm, piece = origin, wasDoublePawnStep = False\<rparr>
           else \<lparr>from = frm, to = \<lparr>row = row move, col = col move\<rparr>,
                 piece = promote (origin\<lparr>moved := True\<rparr>) move,
                 wasDoublePawnStep = (type origin = Pawn \<and> \<bar>row move - row frm\<bar> = 2)\<rparr>)"
proof (cases "nonLethalAttack (board s) origin move")
  case True
  then obtain ds d where ds: "getDefenderSquareForMove (board s) move origin = Some ds"
    "cell (board s) (row ds) (col ds) = Some d" "hp d > getPieceDamage (type origin)"
    by (auto simp: nonLethalAttack_def split: option.splits)
  from commitMove_fields(2) [OF assms(2,3) resolveCommit_nonLethal [OF assms(1) ds, of frm]] True
  show ?thesis by simp
next
  case False
  obtain nb ps lt wd where res: "resolveCommit (board s) origin frm move = (nb, ps, lt, wd)"
    by (cases "resolveCommit (board s) origin frm move") auto
  note cb = completed_board [OF assms(1) False, of frm]
  note cd = clearDefender_origin [OF assms(1,3), of move]
  have "ps = promote (origin\<lparr>moved := True\<rparr>) move"
    using cb(2) res movePiece_returns [OF cd(2), of move] by simp
  moreover have "lt = \<lparr>row = row move, col = col move\<rparr>" using cb(3) res by simp
  moreover have "wd = (type origin = Pawn \<and> \<bar>row move - row frm\<bar> = 2)"
    using cb(4) res by simp
  ultimately show ?thesis
    using commitMove_fields(2) [OF assms(2,3) res] False by simp
qed

lemma getPseudoMoves_enPassant_pawn:
  assumes "m \<in> set (getPseudoMoves lm b r c pc fam)" and "special m = Some EnPassant"
  shows "type pc = Pawn"
proof (rule ccontr)
  assume np: "type pc \<noteq> Pawn"
  have plain: "\<And>r' c'. m \<noteq> plainMove r' c'" using assms(2) by (auto simp: plainMove_def)
  have nocastle: "\<And>side. m \<noteq> castleMove r side" using assms(2) by (auto simp: castleMove_def)
  show False
  proof (cases "type pc")
    case Pawn
    with np show ?thesis by simp
  next
    case Knight
    with assms(1) plain show ?thesis by (auto simp: getPseudoMoves.simps dest: stepMoves_plain)
  next
    case Rook
    with assms(1) plain show ?thesis by (auto simp: getPseudoMoves.simps dest: sliderMoves_plain)
  next
    case Bishop
    with assms(1) plain show ?thesis by (auto simp: getPseudoMoves.simps dest: sliderMoves_plain)
  next
    case Queen
    with assms(1) plain show ?thesis by (auto simp: getPseudoMoves.simps dest: sliderMoves_plain)
  next
    case King
    with assms(1) have "m \<in> set (stepMoves b r c pc kingSteps) \<or>
        (\<exists>side \<in> set castleSides. m = castleMove r side)"
      by (auto simp: getPseudoMoves.simps [of lm b r c pc fam] dest!: castle_part_shape
          split: if_splits)
    with plain nocastle show ?thesis using stepMoves_plain by blast
  qed
qed

text \<open>
  C6. For a pawn, \<^verbatim>\<open>getPseudoMoves\<close> generates an en-passant move exactly when it is
  not in attack-map mode and \<^verbatim>\<open>lastMove\<close> records a double pawn step of a pawn of the
  other colour that ended on the pawn's row one column away, with the diagonal target
  square on the board and empty; no other piece generates one. After a committed move
  \<^verbatim>\<open>lastMove\<close> is the record of that very move, with \<^verbatim>\<open>wasDoublePawnStep\<close> true exactly
  when a pawn completed a move of two rows; so an en-passant move is generated in the
  state after a commit only if that commit was the double step, whatever was played
  before it.
\<close>

theorem enPassant_only_after_double_step:
  "(type pc = Pawn \<longrightarrow>
      ((\<exists>m \<in> set (getPseudoMoves lm b r c pc fam). special m = Some EnPassant) \<longleftrightarrow>
         (\<not> fam \<and> (\<exists>l. lm = Some l \<and> wasDoublePawnStep l \<and> type (piece l) = Pawn \<and>
            color (piece l) \<noteq> color pc \<and> row (to l) = r \<and> \<bar>col (to l) - c\<bar> = 1 \<and>
            inBounds (r + (if color pc = White then -1 else 1)) (col (to l)) \<and>
            cell b (r + (if color pc = White then -1 else 1)) (col (to l)) = None)))) \<and>
   (\<forall>m \<in> set (getPseudoMoves lm b r c pc fam). special m = Some EnPassant \<longrightarrow> type pc = Pawn) \<and>
   (wfBoard (board s) \<and> \<not> isResolvingMove s \<and>
    cell (board s) (row frm) (col frm) = Some origin \<and> moveWithinBoard origin move \<longrightarrow>
      (\<exists>l. lastMove (commitMove s frm move) = Some l \<and> from l = frm \<and>
         (wasDoublePawnStep l \<longleftrightarrow>
            type origin = Pawn \<and> \<bar>row move - row frm\<bar> = 2 \<and>
            \<not> nonLethalAttack (board s) origin move)) \<and>
      ((\<exists>m \<in> set (getPseudoMoves (lastMove (commitMove s frm move))
                     (board (commitMove s frm move)) r c pc fam). special m = Some EnPassant) \<longrightarrow>
         type origin = Pawn \<and> \<bar>row move - row frm\<bar> = 2 \<and>
         \<not> nonLethalAttack (board s) origin move \<and>
         color origin \<noteq> color pc \<and> row move = r \<and> \<bar>col move - c\<bar> = 1))"
proof -
  have p1: "type pc = Pawn \<longrightarrow>
      ((\<exists>m \<in> set (getPseudoMoves lm b r c pc fam). special m = Some EnPassant) \<longleftrightarrow>
         (\<not> fam \<and> (\<exists>l. lm = Some l \<and> wasDoublePawnStep l \<and> type (piece l) = Pawn \<and>
            color (piece l) \<noteq> color pc \<and> row (to l) = r \<and> \<bar>col (to l) - c\<bar> = 1 \<and>
            inBounds (r + (if color pc = White then -1 else 1)) (col (to l)) \<and>
            cell b (r + (if color pc = White then -1 else 1)) (col (to l)) = None)))"
    using pawnMoves_enPassant_iff [of lm b r c pc fam] by (simp add: getPseudoMoves.simps)
  have p2: "\<forall>m \<in> set (getPseudoMoves lm b r c pc fam).
      special m = Some EnPassant \<longrightarrow> type pc = Pawn"
    using getPseudoMoves_enPassant_pawn by blast
  have p3: "wfBoard (board s) \<and> \<not> isResolvingMove s \<and>
    cell (board s) (row frm) (col frm) = Some origin \<and> moveWithinBoard origin move \<longrightarrow>
      (\<exists>l. lastMove (commitMove s frm move) = Some l \<and> from l = frm \<and>
         (wasDoublePawnStep l \<longleftrightarrow>
            type origin = Pawn \<and> \<bar>row move - row frm\<bar> = 2 \<and>
            \<not> nonLethalAttack (board s) origin move)) \<and>
      ((\<exists>m \<in> set (getPseudoMoves (lastMove (commitMove s frm move))
                     (board (commitMove s frm move)) r c pc fam). special m = Some EnPassant) \<longrightarrow>
         type origin = Pawn \<and> \<bar>row move - row frm\<bar> = 2 \<and>
         \<not> nonLethalAttack (board s) origin move \<and>
         color origin \<noteq> color pc \<and> row move = r \<and> \<bar>col move - c\<bar> = 1)"
  proof (rule impI)
    assume h: "wfBoard (board s) \<and> \<not> isResolvingMove s \<and>
      cell (board s) (row frm) (col frm) = Some origin \<and> moveWithinBoard origin move"
    then have lm: "lastMove (commitMove s frm move) =
       Some (if nonLethalAttack (board s) origin move
             then \<lparr>from = frm, to = frm, piece = origin, wasDoublePawnStep = False\<rparr>
             else \<lparr>from = frm, to = \<lparr>row = row move, col = col move\<rparr>,
                   piece = promote (origin\<lparr>moved := True\<rparr>) move,
                   wasDoublePawnStep = (type origin = Pawn \<and> \<bar>row move - row frm\<bar> = 2)\<rparr>)"
      using commitMove_lastMove by blast
    have A: "\<exists>l. lastMove (commitMove s frm move) = Some l \<and> from l = frm \<and>
           (wasDoublePawnStep l \<longleftrightarrow>
              type origin = Pawn \<and> \<bar>row move - row frm\<bar> = 2 \<and>
              \<not> nonLethalAttack (board s) origin move)"
      unfolding lm by auto
    have B: "type origin = Pawn \<and> \<bar>row move - row frm\<bar> = 2 \<and>
           \<not> nonLethalAttack (board s) origin move \<and>
           color origin \<noteq> color pc \<and> row move = r \<and> \<bar>col move - c\<bar> = 1"
      if ex: "\<exists>m \<in> set (getPseudoMoves (lastMove (commitMove s frm move))
                       (board (commitMove s frm move)) r c pc fam). special m = Some EnPassant"
    proof -
      from ex have pawn: "type pc = Pawn" using getPseudoMoves_enPassant_pawn by blast
      with ex have "\<exists>m \<in> set (pawnMoves (lastMove (commitMove s frm move))
                       (board (commitMove s frm move)) r c pc fam). special m = Some EnPassant"
        by (simp add: getPseudoMoves.simps)
      then obtain l where l: "lastMove (commitMove s frm move) = Some l" "wasDoublePawnStep l"
        "type (piece l) = Pawn" "color (piece l) \<noteq> color pc" "row (to l) = r"
        "\<bar>col (to l) - c\<bar> = 1"
        unfolding pawnMoves_enPassant_iff by blast
      from l(1,2) lm have nl: "\<not> nonLethalAttack (board s) origin move"
        by (auto split: if_splits)
      with l(1) lm have l': "l = \<lparr>from = frm, to = \<lparr>row = row move, col = col move\<rparr>,
                   piece = promote (origin\<lparr>moved := True\<rparr>) move,
                   wasDoublePawnStep = (type origin = Pawn \<and> \<bar>row move - row frm\<bar> = 2)\<rparr>"
        by simp
      have "color (promote (origin\<lparr>moved := True\<rparr>) move) = color origin"
        by (simp add: promote_def)
      with l(2-6) nl show ?thesis unfolding l' by simp
    qed
    show "(\<exists>l. lastMove (commitMove s frm move) = Some l \<and> from l = frm \<and>
         (wasDoublePawnStep l \<longleftrightarrow>
            type origin = Pawn \<and> \<bar>row move - row frm\<bar> = 2 \<and>
            \<not> nonLethalAttack (board s) origin move)) \<and>
      ((\<exists>m \<in> set (getPseudoMoves (lastMove (commitMove s frm move))
                     (board (commitMove s frm move)) r c pc fam). special m = Some EnPassant) \<longrightarrow>
         type origin = Pawn \<and> \<bar>row move - row frm\<bar> = 2 \<and>
         \<not> nonLethalAttack (board s) origin move \<and>
         color origin \<noteq> color pc \<and> row move = r \<and> \<bar>col move - c\<bar> = 1)"
      by (rule conjI [OF A impI [OF B]])
  qed
  show ?thesis by (rule conjI [OF p1 conjI [OF p2 p3]])
qed

theorem enPassant_only_after_double_step_witness:
  "type (createPiece White Pawn) = Pawn \<and>
   (\<exists>m \<in> set (getPseudoMoves (lastMove afterDoubleStep) (board afterDoubleStep) 3 4
      (createPiece White Pawn) False). special m = Some EnPassant) \<and>
   enPassantMove \<in> set (getPseudoMoves (lastMove afterDoubleStep) (board afterDoubleStep) 3 4
      (createPiece White Pawn) False) \<and>
   special enPassantMove = Some EnPassant \<and>
   cell (board afterKingMoves) 3 4 = Some (createPiece White Pawn) \<and>
   \<not> (\<exists>m \<in> set (getPseudoMoves (lastMove afterKingMoves) (board afterKingMoves) 3 4
      (createPiece White Pawn) False). special m = Some EnPassant)"
proof -
  let ?s = "commitMove afterDoubleStep \<lparr>row = 7, col = 4\<rparr> (plainMove 6 4)"
  let ?f = "\<lparr>row = 0, col = 7\<rparr> :: Square"
  let ?m = "plainMove 0 6"
  let ?k = "createPiece Black King"
  have s: "commitMove ?s ?f ?m = afterKingMoves" by (simp add: afterKingMoves_def)
  have h: "wfBoard (board ?s) \<and> \<not> isResolvingMove ?s \<and>
      cell (board ?s) (row ?f) (col ?f) = Some ?k \<and> moveWithinBoard ?k ?m" by code_simp
  have k: "type ?k \<noteq> Pawn" by (simp add: createPiece_def)
  have e1: "enPassantMove \<in> set (getPseudoMoves (lastMove afterDoubleStep)
      (board afterDoubleStep) 3 4 (createPiece White Pawn) False)" by code_simp
  have e2: "special enPassantMove = Some EnPassant" by (simp add: enPassantMove_def)
  have e3: "cell (board afterKingMoves) 3 4 = Some (createPiece White Pawn)" by code_simp
  have tp: "type (createPiece White Pawn) = Pawn" by code_simp
  have lmv: "lastMove afterDoubleStep =
      Some \<lparr>from = \<lparr>row = 1, col = 3\<rparr>, to = \<lparr>row = 3, col = 3\<rparr>,
            piece = (createPiece Black Pawn)\<lparr>moved := True\<rparr>, wasDoublePawnStep = True\<rparr>"
    by code_simp
  have tgt: "inBounds 2 3 \<and> cell (board afterDoubleStep) 2 3 = None" by code_simp
  from enPassant_only_after_double_step
    [of "createPiece White Pawn" "lastMove afterDoubleStep" "board afterDoubleStep"
        3 4 False ?s ?f ?k ?m] tp
  have "(\<exists>m \<in> set (getPseudoMoves (lastMove afterDoubleStep) (board afterDoubleStep) 3 4
      (createPiece White Pawn) False). special m = Some EnPassant) \<longleftrightarrow>
      (\<exists>l. lastMove afterDoubleStep = Some l \<and> wasDoublePawnStep l \<and>
         type (piece l) = Pawn \<and> color (piece l) \<noteq> color (createPiece White Pawn) \<and>
         row (to l) = 3 \<and> \<bar>col (to l) - 4\<bar> = 1 \<and>
         inBounds (3 + (if color (createPiece White Pawn) = White then -1 else 1)) (col (to l)) \<and>
         cell (board afterDoubleStep)
           (3 + (if color (createPiece White Pawn) = White then -1 else 1)) (col (to l)) = None)"
    by simp
  with tgt have e0: "\<exists>m \<in> set (getPseudoMoves (lastMove afterDoubleStep)
      (board afterDoubleStep) 3 4 (createPiece White Pawn) False). special m = Some EnPassant"
    unfolding lmv by (simp add: createPiece_def)
  from enPassant_only_after_double_step
    [of "createPiece White Pawn" "lastMove afterDoubleStep" "board afterDoubleStep"
        3 4 False ?s ?f ?k ?m] h
  have "(\<exists>m \<in> set (getPseudoMoves (lastMove (commitMove ?s ?f ?m))
           (board (commitMove ?s ?f ?m)) 3 4 (createPiece White Pawn) False).
             special m = Some EnPassant) \<longrightarrow> type ?k = Pawn"
    by blast
  with k have "\<not> (\<exists>m \<in> set (getPseudoMoves (lastMove afterKingMoves) (board afterKingMoves) 3 4
      (createPiece White Pawn) False). special m = Some EnPassant)"
    unfolding s by blast
  with tp e0 e1 e2 e3 show ?thesis by blast
qed

section \<open>Castling\<close>

lemma stepMoves_special: "m \<in> set (stepMoves b r c pc offsets) \<Longrightarrow> special m = None"
  using stepMoves_plain [of m b r c pc offsets] by (auto simp: plainMove_def)

lemma king_moves_split:
  assumes "type pc = King"
  shows "getPseudoMoves lm b r c pc fam =
     stepMoves b r c pc kingSteps @
       (if \<not> fam \<and> \<not> moved pc \<and> \<not> isKingInCheck lm b (color pc)
        then concat (map (\<lambda>side.
                if \<not> rookReady b r pc side then []
                else if blocked b r side then []
                else (let enemy = enemyOf (color pc);
                          underAttack = list_ex (\<lambda>dangerCol.
                            isSquareAttacked lm b r dangerCol enemy) (dangerCols side)
                      in if \<not> underAttack then [castleMove r side] else []))
              castleSides)
        else [])"
  using assms by (simp add: getPseudoMoves.simps [of lm b r c pc fam])

lemma castle_part_iff:
  "(m \<in> set (concat (map (\<lambda>side.
                if \<not> rookReady b r pc side then []
                else if blocked b r side then []
                else (let enemy = enemyOf (color pc);
                          underAttack = list_ex (\<lambda>dangerCol.
                            isSquareAttacked lm b r dangerCol enemy) (dangerCols side)
                      in if \<not> underAttack then [castleMove r side] else []))
              castleSides))) =
   (\<exists>side \<in> set castleSides. m = castleMove r side \<and> rookReady b r pc side \<and>
      \<not> blocked b r side \<and>
      \<not> list_ex (\<lambda>dangerCol. isSquareAttacked lm b r dangerCol (enemyOf (color pc)))
          (dangerCols side))"
  by (auto simp: Let_def split: if_splits)

lemma king_castle_moves:
  assumes "type pc = King"
  shows "(m \<in> set (getPseudoMoves lm b r c pc fam) \<and> special m = Some Castle) =
     (\<not> fam \<and> \<not> moved pc \<and> \<not> isKingInCheck lm b (color pc) \<and>
      (\<exists>side \<in> set castleSides. m = castleMove r side \<and> rookReady b r pc side \<and>
         \<not> blocked b r side \<and>
         \<not> list_ex (\<lambda>dangerCol. isSquareAttacked lm b r dangerCol (enemyOf (color pc)))
             (dangerCols side)))"
proof -
  have c: "\<And>side. special (castleMove r side) = Some Castle" by (simp add: castleMove_def)
  show ?thesis
    unfolding king_moves_split [OF assms]
    using stepMoves_special [of m b r c pc kingSteps] c
    by (auto simp: castle_part_iff simp del: set_concat)
qed

lemma castleProduced_iff:
  assumes "type pc = King"
  shows "castleProduced lm b r c pc fam rc =
     (\<not> fam \<and> \<not> moved pc \<and> \<not> isKingInCheck lm b (color pc) \<and>
      (\<exists>side \<in> set castleSides. rookCol side = rc \<and> rookReady b r pc side \<and>
         \<not> blocked b r side \<and>
         \<not> list_ex (\<lambda>dangerCol. isSquareAttacked lm b r dangerCol (enemyOf (color pc)))
             (dangerCols side)))"
proof -
  have "castleProduced lm b r c pc fam rc =
      (\<exists>m. (m \<in> set (getPseudoMoves lm b r c pc fam) \<and> special m = Some Castle) \<and>
           rookFromCol m = Some rc)"
    by (auto simp: castleProduced_def list_ex_iff)
  also have "\<dots> = (\<not> fam \<and> \<not> moved pc \<and> \<not> isKingInCheck lm b (color pc) \<and>
      (\<exists>side \<in> set castleSides. rookCol side = rc \<and> rookReady b r pc side \<and>
         \<not> blocked b r side \<and>
         \<not> list_ex (\<lambda>dangerCol. isSquareAttacked lm b r dangerCol (enemyOf (color pc)))
             (dangerCols side)))"
    unfolding king_castle_moves [OF assms] by (auto simp: castleMove_def)
  finally show ?thesis .
qed

lemma castle_relocation:
  assumes wf: "wfBoard b"
    and k: "cell b r 4 = Some pc" and ty: "type pc = King"
    and rook: "cell b r rf = Some rook"
    and free: "cell b r kt = None"
    and rng: "0 \<le> kt" "kt < 8" "0 \<le> rf" "rf < 8" "0 \<le> rt" "rt < 8"
    and dist: "kt \<noteq> 4" "rf \<noteq> 4" "rt \<noteq> 4" "kt \<noteq> rf" "kt \<noteq> rt" "rf \<noteq> rt"
    and m: "m = \<lparr>row = r, col = kt, special = Some Castle,
                 rookFromCol = Some rf, rookToCol = Some rt\<rparr>"
  shows "cell (fst (resolveCommit b pc \<lparr>row = r, col = 4\<rparr> m)) r kt = Some (pc\<lparr>moved := True\<rparr>)"
    and "cell (fst (resolveCommit b pc \<lparr>row = r, col = 4\<rparr> m)) r rt = Some (rook\<lparr>moved := True\<rparr>)"
    and "cell (fst (resolveCommit b pc \<lparr>row = r, col = 4\<rparr> m)) r 4 = None"
    and "cell (fst (resolveCommit b pc \<lparr>row = r, col = 4\<rparr> m)) r rf = None"
proof -
  let ?frm = "\<lparr>row = r, col = 4\<rparr> :: Square"
  let ?b1 = "setCell b r 4 None"
  let ?b3 = "setCell ?b1 r kt (Some (pc\<lparr>moved := True\<rparr>))"
  let ?b4 = "setCell ?b3 r rf None"
  let ?b5 = "setCell ?b4 r rt (Some (rook\<lparr>moved := True\<rparr>))"
  from k have "inBounds r 4" by (rule cell_Some_inBounds)
  then have ib: "inBounds r kt" "inBounds r rf" "inBounds r rt" "inBounds r 4"
    using rng by (simp_all add: inBounds_def)
  have nodef: "getDefenderSquareForMove b m pc = None"
    using free by (simp add: getDefenderSquareForMove_def m)
  then have nl: "\<not> nonLethalAttack b pc m" and cd: "clearDefender b pc m = b"
    by (simp_all add: nonLethalAttack_def clearDefender_def)
  have r3: "cell ?b3 r rf = Some rook"
    using wf ib dist rook by (simp add: cell_setCell)
  have mp: "fst (movePieceWithPromotion b ?frm m) = ?b5"
    using k ty r3 by (simp add: movePieceWithPromotion_def castleRook_def promote_def m Let_def)
  have eq: "fst (resolveCommit b pc ?frm m) = ?b5"
    using completed_board(1) [OF wf nl, of ?frm] cd mp by simp
  show "cell (fst (resolveCommit b pc ?frm m)) r kt = Some (pc\<lparr>moved := True\<rparr>)"
    unfolding eq using wf ib dist by (simp add: cell_setCell)
  show "cell (fst (resolveCommit b pc ?frm m)) r rt = Some (rook\<lparr>moved := True\<rparr>)"
    unfolding eq using wf ib dist by (simp add: cell_setCell)
  show "cell (fst (resolveCommit b pc ?frm m)) r 4 = None"
    unfolding eq using wf ib dist by (simp add: cell_setCell)
  show "cell (fst (resolveCommit b pc ?frm m)) r rf = None"
    unfolding eq using wf ib dist by (simp add: cell_setCell)
qed

lemma commitMove_board:
  assumes "\<not> isResolvingMove s" and "cell (board s) (row frm) (col frm) = Some origin"
  shows "board (commitMove s frm move) = fst (resolveCommit (board s) origin frm move)"
proof -
  obtain nb ps lt wd where res: "resolveCommit (board s) origin frm move = (nb, ps, lt, wd)"
    by (cases "resolveCommit (board s) origin frm move") auto
  from commitMove_fields(1) [OF assms res] res show ?thesis by simp
qed

section \<open>Cloned boards share nothing with the original\<close>

lemma take_eq_iff:
  "(take (length ys) xs = ys) =
     (length ys \<le> length xs \<and> (\<forall>i < length ys. xs ! i = ys ! i))"
  by (auto simp: list_eq_iff_nth_eq)

lemma extendsHeap_iff:
  "extendsHeap h0 h =
     (length (pieceObjs h0) \<le> length (pieceObjs h) \<and>
      (\<forall>a < length (pieceObjs h0). pieceObjs h ! a = pieceObjs h0 ! a) \<and>
      length (rowArrays h0) \<le> length (rowArrays h) \<and>
      (\<forall>ra < length (rowArrays h0). rowArrays h ! ra = rowArrays h0 ! ra))"
  unfolding extendsHeap_def take_eq_iff by blast

lemma extendsHeap_refl [simp]: "extendsHeap h h"
  by (simp add: extendsHeap_iff)

lemma extendsHeap_trans: "extendsHeap h0 h1 \<Longrightarrow> extendsHeap h1 h2 \<Longrightarrow> extendsHeap h0 h2"
  by (auto simp: extendsHeap_iff)

lemma newPiece_facts:
  "pieceObjs (fst (newPiece h p)) = pieceObjs h @ [p]"
  "rowArrays (fst (newPiece h p)) = rowArrays h"
  "snd (newPiece h p) = length (pieceObjs h)"
  by (simp_all add: newPiece_def)

lemma newRow_facts:
  "pieceObjs (fst (newRow h cells)) = pieceObjs h"
  "rowArrays (fst (newRow h cells)) = rowArrays h @ [cells]"
  "snd (newRow h cells) = length (rowArrays h)"
  by (simp_all add: newRow_def)

lemma extendsHeap_newPiece: "extendsHeap h (fst (newPiece h p))"
  by (simp add: extendsHeap_iff newPiece_facts nth_append)

lemma extendsHeap_newRow: "extendsHeap h (fst (newRow h cells))"
  by (simp add: extendsHeap_iff newRow_facts nth_append)

lemma derefCell_extends:
  "extendsHeap h h' \<Longrightarrow> validRef h x \<Longrightarrow> derefCell h' x = derefCell h x"
  by (cases x) (auto simp: derefCell_def validRef_def extendsHeap_iff)

lemma validRef_extends: "extendsHeap h h' \<Longrightarrow> validRef h x \<Longrightarrow> validRef h' x"
  by (cases x) (auto simp: validRef_def extendsHeap_iff)

lemma freshRef_valid: "freshRef h0 h x \<Longrightarrow> validRef h x"
  by (cases x) (auto simp: validRef_def freshRef_def)

lemma freshRef_mono:
  "freshRef h1 h2 x \<Longrightarrow> extendsHeap h0 h1 \<Longrightarrow> extendsHeap h2 h3 \<Longrightarrow> freshRef h0 h3 x"
  by (cases x) (auto simp: freshRef_def extendsHeap_iff)

lemma map_derefCell_extends:
  "extendsHeap h h' \<Longrightarrow> list_all (validRef h) xs \<Longrightarrow> map (derefCell h') xs = map (derefCell h) xs"
  by (induction xs) (auto simp: derefCell_extends)

text \<open>Whatever happens in an extension of the store, rows valid before read as before.\<close>

lemma validRow_extends:
  assumes "extendsHeap h h'" and "validRow h ra"
  shows "validRow h' ra" and "rowArrays h' ! ra = rowArrays h ! ra"
    and "map (derefCell h') (rowArrays h' ! ra) = map (derefCell h) (rowArrays h ! ra)"
proof -
  from assms show r: "rowArrays h' ! ra = rowArrays h ! ra"
    by (simp add: extendsHeap_iff validRow_def)
  from assms have v: "list_all (validRef h) (rowArrays h ! ra)" by (simp add: validRow_def)
  with assms(1) have "list_all (validRef h') (rowArrays h ! ra)"
    by (auto simp: list_all_iff intro: validRef_extends)
  with assms r show "validRow h' ra" by (auto simp: validRow_def extendsHeap_iff)
  from assms(1) v r show
    "map (derefCell h') (rowArrays h' ! ra) = map (derefCell h) (rowArrays h ! ra)"
    by (simp add: map_derefCell_extends)
qed

lemma rows_extends:
  assumes "extendsHeap h h'" and "list_all (validRow h) ras"
  shows "boardOf h' ras = boardOf h ras" and "list_all (validRow h') ras"
proof -
  have "\<And>ra. ra \<in> set ras \<Longrightarrow>
      map (derefCell h') (rowArrays h' ! ra) = map (derefCell h) (rowArrays h ! ra)"
    using assms by (simp add: list_all_iff validRow_extends(3))
  then show "boardOf h' ras = boardOf h ras" by (simp add: boardOf_def)
  show "list_all (validRow h') ras"
    using assms by (simp add: list_all_iff validRow_extends(1))
qed

lemma boardOf_extends:
  "extendsHeap h h' \<Longrightarrow> validBoard h brd \<Longrightarrow> boardOf h' brd = boardOf h brd"
  by (simp add: validBoard_def rows_extends)

lemma cloneCells_spec:
  "cloneCells h xs = (h', ys) \<Longrightarrow> list_all (validRef h) xs \<Longrightarrow>
     extendsHeap h h' \<and> rowArrays h' = rowArrays h \<and> length ys = length xs \<and>
     list_all (freshRef h h') ys \<and> map (derefCell h') ys = map (derefCell h) xs"
proof (induction h xs arbitrary: h' ys rule: cloneCells.induct)
  case (1 h)
  then show ?case by simp
next
  case (2 h xs)
  obtain h1 ys1 where c: "cloneCells h xs = (h1, ys1)" by (cases "cloneCells h xs") auto
  with "2.prems" have e: "h' = h1" "ys = None # ys1" by auto
  from "2.IH" [OF c] "2.prems"(2) show ?case
    unfolding e by (simp add: freshRef_def derefCell_def)
next
  case (3 h a xs)
  let ?h1 = "h\<lparr>pieceObjs := pieceObjs h @ [copyPiece (pieceObjs h ! a)]\<rparr>"
  let ?a' = "length (pieceObjs h)"
  have np: "newPiece h (copyPiece (pieceObjs h ! a)) = (?h1, ?a')"
    by (simp add: newPiece_def)
  have h1: "?h1 = fst (newPiece h (copyPiece (pieceObjs h ! a)))" by (simp add: newPiece_def)
  obtain h2 ys2 where c: "cloneCells ?h1 xs = (h2, ys2)" by (cases "cloneCells ?h1 xs") auto
  from "3.prems"(1) have e: "h' = h2" "ys = Some ?a' # ys2"
    unfolding cloneCells.simps np using c by auto
  have e01: "extendsHeap h ?h1" unfolding h1 by (rule extendsHeap_newPiece)
  from "3.prems"(2) have va: "validRef h (Some a)" and vxs: "list_all (validRef h) xs" by auto
  from vxs e01 have vxs1: "list_all (validRef ?h1) xs"
    by (auto simp: list_all_iff intro: validRef_extends)
  from "3.IH" [OF np [symmetric] c vxs1]
  have ih: "extendsHeap ?h1 h2" "rowArrays h2 = rowArrays ?h1" "length ys2 = length xs"
    "list_all (freshRef ?h1 h2) ys2" "map (derefCell h2) ys2 = map (derefCell ?h1) xs"
    by auto
  have e02: "extendsHeap h h2" using e01 ih(1) by (rule extendsHeap_trans)
  have f: "list_all (freshRef h h2) ys2"
    using ih(4) e01 by (auto simp: list_all_iff intro: freshRef_mono)
  have fa: "freshRef h h2 (Some ?a')"
    using ih(1) by (auto simp: freshRef_def extendsHeap_iff)
  have "pieceObjs h2 ! ?a' = pieceObjs ?h1 ! ?a'"
    using ih(1) by (simp add: extendsHeap_iff)
  then have da: "derefCell h2 (Some ?a') = derefCell h (Some a)"
    by (simp add: derefCell_def)
  have "map (derefCell ?h1) xs = map (derefCell h) xs"
    using e01 vxs by (rule map_derefCell_extends)
  with ih(5) have dm: "map (derefCell h2) ys2 = map (derefCell h) xs" by simp
  show ?case unfolding e using e02 ih(2,3) f fa da dm by simp
qed

lemma ownedRow_mono:
  "ownedRow h1 h2 ra \<Longrightarrow> extendsHeap h0 h1 \<Longrightarrow> ownedRow h0 h2 ra"
  by (auto simp: ownedRow_def list_all_iff extendsHeap_iff intro: freshRef_mono [OF _ _ extendsHeap_refl])

lemma cloneRows_spec:
  "cloneRows h ras = (h', ras') \<Longrightarrow> list_all (validRow h) ras \<Longrightarrow>
     extendsHeap h h' \<and> length ras' = length ras \<and>
     list_all (ownedRow h h') ras' \<and> boardOf h' ras' = boardOf h ras"
proof (induction h ras arbitrary: h' ras' rule: cloneRows.induct)
  case (1 h)
  then show ?case by (simp add: boardOf_def)
next
  case (2 h ra ras)
  from "2.prems"(2) have vra: "validRow h ra" and vras: "list_all (validRow h) ras" by auto
  obtain h1 cells where c1: "cloneCells h (rowArrays h ! ra) = (h1, cells)"
    by (cases "cloneCells h (rowArrays h ! ra)") auto
  from vra have "list_all (validRef h) (rowArrays h ! ra)" "length (rowArrays h ! ra) = 8"
    by (simp_all add: validRow_def)
  with cloneCells_spec [OF c1]
  have cs: "extendsHeap h h1" "rowArrays h1 = rowArrays h" "length cells = 8"
    "list_all (freshRef h h1) cells"
    "map (derefCell h1) cells = map (derefCell h) (rowArrays h ! ra)"
    by auto
  let ?h2 = "h1\<lparr>rowArrays := rowArrays h1 @ [cells]\<rparr>"
  let ?ra' = "length (rowArrays h1)"
  have nr: "newRow h1 cells = (?h2, ?ra')" by (simp add: newRow_def)
  have h2: "?h2 = fst (newRow h1 cells)" by (simp add: newRow_def)
  obtain h3 rest where c3: "cloneRows ?h2 ras = (h3, rest)" by (cases "cloneRows ?h2 ras") auto
  from "2.prems"(1) c3 have e: "h' = h3" "ras' = ?ra' # rest"
    by (simp_all add: c1 nr)
  have e12: "extendsHeap h1 ?h2" unfolding h2 by (rule extendsHeap_newRow)
  have e02: "extendsHeap h ?h2" using cs(1) e12 by (rule extendsHeap_trans)
  have v2: "list_all (validRow ?h2) ras" using rows_extends(2) [OF e02 vras] .
  from "2.IH" [OF c1 [symmetric] nr [symmetric] c3 v2]
  have ih: "extendsHeap ?h2 h3" "length rest = length ras" "list_all (ownedRow ?h2 h3) rest"
    "boardOf h3 rest = boardOf ?h2 ras" by auto
  have e03: "extendsHeap h h3" using e02 ih(1) by (rule extendsHeap_trans)
  have e13: "extendsHeap h1 h3" using e12 ih(1) by (rule extendsHeap_trans)
  have orest: "list_all (ownedRow h h3) rest"
    using ih(3) e02 by (auto simp: list_all_iff intro: ownedRow_mono)
  have row3: "rowArrays h3 ! ?ra' = cells"
    using ih(1) by (simp add: extendsHeap_iff)
  have len3: "?ra' < length (rowArrays h3)"
    using ih(1) by (simp add: extendsHeap_iff)
  have fr3: "list_all (freshRef h h3) cells"
    using cs(4) e13 by (auto simp: list_all_iff intro: freshRef_mono [OF _ extendsHeap_refl])
  have ora: "ownedRow h h3 ?ra'"
    using row3 len3 fr3 cs(2,3) by (simp add: ownedRow_def)
  have "list_all (validRef h1) cells"
    using cs(4) by (auto simp: list_all_iff intro: freshRef_valid)
  then have "map (derefCell h3) cells = map (derefCell h1) cells"
    using e13 by (simp add: map_derefCell_extends)
  with cs(5) row3 have d: "map (derefCell h3) (rowArrays h3 ! ?ra') =
      map (derefCell h) (rowArrays h ! ra)" by simp
  have "boardOf ?h2 ras = boardOf h ras" using rows_extends(1) [OF e02 vras] .
  with ih(4) d have b: "boardOf h3 (?ra' # rest) = boardOf h (ra # ras)"
    by (simp add: boardOf_def)
  show ?case unfolding e using e03 ih(2) orest ora b by simp
qed

lemma cloneBoardH_spec:
  assumes "validBoard h brd" and "cloneBoardH h brd = (h1, nb)"
  shows "extendsHeap h h1" and "ownedOutside h h1 nb" and "boardOf h1 nb = boardOf h brd"
  using cloneRows_spec [of h brd h1 nb] assms
  by (simp_all add: cloneBoardH_def validBoard_def ownedOutside_def)

lemma separate_row:
  assumes "separate h0 h nb" and "inBounds r c"
  shows "ownedRow h0 h (nb ! nat r)" and "nat c < length (rowArrays h ! (nb ! nat r))"
proof -
  from assms(2) have "nat r < 8" "nat c < 8" by (auto simp: inBounds_def)
  with assms(1) show "ownedRow h0 h (nb ! nat r)"
    by (auto simp: separate_def ownedOutside_def list_all_length)
  then show "nat c < length (rowArrays h ! (nb ! nat r))"
    using \<open>nat c < 8\<close> by (simp add: ownedRow_def)
qed

lemma separate_refAt:
  assumes "separate h0 h nb" and "refAt h nb r c = Some a"
  shows "length (pieceObjs h0) \<le> a" and "a < length (pieceObjs h)"
proof -
  from assms(2) have ib: "inBounds r c" by (simp add: refAt_def split: if_splits)
  note row = separate_row [OF assms(1) ib]
  from assms(2) ib have "rowArrays h ! (nb ! nat r) ! nat c = Some a" by (simp add: refAt_def)
  with row(2) have "Some a \<in> set (rowArrays h ! (nb ! nat r))" by (metis nth_mem)
  with row(1) have "freshRef h0 h (Some a)" by (auto simp: ownedRow_def list_all_iff)
  then show "length (pieceObjs h0) \<le> a" and "a < length (pieceObjs h)"
    by (simp_all add: freshRef_def)
qed

lemma separate_newPiece:
  assumes "separate h0 h nb"
  shows "separate h0 (fst (newPiece h p)) nb"
    and "freshRef h0 (fst (newPiece h p)) (Some (snd (newPiece h p)))"
proof -
  let ?h' = "fst (newPiece h p)"
  have e: "extendsHeap h ?h'" by (rule extendsHeap_newPiece)
  from assms have e0: "extendsHeap h0 h" by (simp add: separate_def)
  have "\<And>ra. ownedRow h0 h ra \<Longrightarrow> ownedRow h0 ?h' ra"
    by (auto simp: ownedRow_def newPiece_facts list_all_iff freshRef_def split: option.splits)
  with assms e0 e show "separate h0 ?h' nb"
    by (auto simp: separate_def ownedOutside_def list_all_iff intro: extendsHeap_trans)
  from e0 show "freshRef h0 ?h' (Some (snd (newPiece h p)))"
    by (simp add: freshRef_def newPiece_facts extendsHeap_iff)
qed

lemma separate_setPiece:
  assumes "separate h0 h nb" and "length (pieceObjs h0) \<le> a"
  shows "separate h0 (setPiece h a p) nb"
proof -
  from assms have "extendsHeap h0 (setPiece h a p)"
    by (auto simp: separate_def extendsHeap_iff setPiece_def)
  moreover have "\<And>ra. ownedRow h0 h ra \<Longrightarrow> ownedRow h0 (setPiece h a p) ra"
    by (auto simp: ownedRow_def setPiece_def list_all_iff freshRef_def split: option.splits)
  ultimately show ?thesis
    using assms(1) by (auto simp: separate_def ownedOutside_def list_all_iff)
qed

lemma separate_storeRef:
  assumes "separate h0 h nb" and "freshRef h0 h v"
  shows "separate h0 (storeRef h nb r c v) nb"
proof (cases "inBounds r c")
  case False
  with assms(1) show ?thesis by (simp add: storeRef_def)
next
  case True
  let ?ra = "nb ! nat r"
  let ?row = "(rowArrays h ! ?ra)[nat c := v]"
  let ?h' = "h\<lparr>rowArrays := (rowArrays h)[?ra := ?row]\<rparr>"
  have h': "storeRef h nb r c v = ?h'" using True by (simp add: storeRef_def)
  note row = separate_row [OF assms(1) True]
  from row(1) have ra: "length (rowArrays h0) \<le> ?ra" "?ra < length (rowArrays h)"
    by (simp_all add: ownedRow_def)
  from assms(1) ra have e: "extendsHeap h0 ?h'"
    by (auto simp: separate_def extendsHeap_iff)
  have newrow: "list_all (freshRef h0 h) ?row"
    using row(1) assms(2) set_update_subset_insert [of "rowArrays h ! ?ra" "nat c" v]
    by (auto simp: ownedRow_def list_all_iff)
  have "\<And>ra2. ownedRow h0 h ra2 \<Longrightarrow> ownedRow h0 ?h' ra2"
  proof -
    fix ra2 assume o: "ownedRow h0 h ra2"
    show "ownedRow h0 ?h' ra2"
    proof (cases "ra2 = ?ra")
      case True
      with o newrow ra show ?thesis
        by (auto simp: ownedRow_def list_all_iff freshRef_def split: option.splits)
    next
      case False
      with o show ?thesis
        by (auto simp: ownedRow_def list_all_iff freshRef_def split: option.splits)
    qed
  qed
  with assms(1) e show ?thesis
    unfolding h' by (auto simp: separate_def ownedOutside_def list_all_iff)
qed

lemma separate_storeNull: "separate h0 h nb \<Longrightarrow> separate h0 (storeRef h nb r c None) nb"
  by (rule separate_storeRef) (simp_all add: freshRef_def)

lemma separate_putPiece:
  assumes "separate h0 h nb"
  shows "separate h0 (storeRef (fst (newPiece h p)) nb r c (Some (snd (newPiece h p)))) nb"
  using separate_newPiece [OF assms, of p] by (auto intro: separate_storeRef)

lemma separate_castleRookH:
  assumes "separate h0 h nb"
  shows "separate h0 (castleRookH h nb m) nb"
proof (cases "\<exists>rf rt. special m = Some Castle \<and> rookFromCol m = Some rf \<and> rookToCol m = Some rt")
  case False
  then have "castleRookH h nb m = h"
    by (auto simp: castleRookH_def split: option.splits Special.splits)
  with assms show ?thesis by simp
next
  case True
  then obtain rf rt where c: "special m = Some Castle" "rookFromCol m = Some rf"
    "rookToCol m = Some rt" by blast
  let ?h1 = "storeRef h nb (row m) rf None"
  have s1: "separate h0 ?h1 nb" using assms by (rule separate_storeNull)
  show ?thesis
  proof (cases "refAt h nb (row m) rf")
    case None
    with c s1 show ?thesis by (simp add: castleRookH_def)
  next
    case (Some ra)
    let ?p = "(copyPiece (pieceObjs ?h1 ! ra))\<lparr>moved := True\<rparr>"
    have "castleRookH h nb m =
        storeRef (fst (newPiece ?h1 ?p)) nb (row m) rt (Some (snd (newPiece ?h1 ?p)))"
      using c Some by (simp add: castleRookH_def Let_def split: prod.splits)
    with separate_putPiece [OF s1, of ?p "row m" rt] show ?thesis by simp
  qed
qed

lemma separate_movePiece:
  assumes "separate h0 h nb"
  shows "separate h0 (fst (movePieceWithPromotionH h nb frm m)) nb"
proof (cases "refAt h nb (row frm) (col frm)")
  case None
  with separate_newPiece(1) [OF assms] show ?thesis by (simp add: movePieceWithPromotionH_def)
next
  case (Some a)
  let ?pc = "pieceObjs h ! a"
  let ?h1 = "storeRef h nb (row frm) (col frm) None"
  let ?h2 = "if special m = Some EnPassant
             then storeRef ?h1 nb (if color ?pc = White then row m + 1 else row m - 1) (col m) None
             else ?h1"
  let ?np = "newPiece ?h2 ((copyPiece ?pc)\<lparr>moved := True\<rparr>)"
  let ?h4 = "setPiece (fst ?np) (snd ?np) (promote (pieceObjs (fst ?np) ! snd ?np) m)"
  let ?h5 = "storeRef ?h4 nb (row m) (col m) (Some (snd ?np))"
  have s1: "separate h0 ?h1 nb" using assms by (rule separate_storeNull)
  then have s2: "separate h0 ?h2 nb" by (auto intro: separate_storeNull)
  note n = separate_newPiece [OF s2, of "(copyPiece ?pc)\<lparr>moved := True\<rparr>"]
  from n(2) have lo: "length (pieceObjs h0) \<le> snd ?np" by (simp add: freshRef_def)
  have s4: "separate h0 ?h4 nb" using n(1) lo by (rule separate_setPiece)
  have "freshRef h0 ?h4 (Some (snd ?np))"
    using n(2) by (simp add: freshRef_def setPiece_def)
  with s4 have s5: "separate h0 ?h5 nb" by (rule separate_storeRef)
  have eq: "fst (movePieceWithPromotionH h nb frm m) = castleRookH ?h5 nb m"
    using Some by (simp add: movePieceWithPromotionH_def Let_def split: prod.splits)
  show ?thesis unfolding eq using s5 by (rule separate_castleRookH)
qed

lemma separate_mutation:
  "separate h0 h nb \<Longrightarrow> separate h0 (applyMutation nb mu h) nb"
proof (cases mu)
  case (ClearCell r c)
  assume "separate h0 h nb"
  then show ?thesis unfolding ClearCell by (simp add: separate_storeNull)
next
  case (PutPiece r c p)
  assume "separate h0 h nb"
  from separate_putPiece [OF this, of p r c] show ?thesis
    unfolding PutPiece by (cases "newPiece h p") simp
next
  case (ChangePiece r c p)
  assume s: "separate h0 h nb"
  show ?thesis
  proof (cases "refAt h nb r c")
    case None
    with s show ?thesis unfolding ChangePiece by simp
  next
    case (Some a)
    from separate_refAt(1) [OF s Some] s show ?thesis
      unfolding ChangePiece using Some by (simp add: separate_setPiece)
  qed
qed

lemma separate_mutations:
  "separate h0 h nb \<Longrightarrow> separate h0 (applyMutations nb mus h) nb"
  unfolding applyMutations_def
  by (induction mus arbitrary: h) (simp_all add: separate_mutation)

lemma separate_simulate:
  assumes "validBoard h brd"
  shows "separate h (fst (simulateResolvedBoardH h brd frm m))
           (snd (simulateResolvedBoardH h brd frm m))"
proof -
  obtain h1 nb where cl: "cloneBoardH h brd = (h1, nb)" by (cases "cloneBoardH h brd") auto
  note cs = cloneBoardH_spec [OF assms cl]
  from cs(1,2) have s1: "separate h h1 nb" by (simp add: separate_def)
  show ?thesis
  proof (cases "refAt h1 nb (row frm) (col frm)")
    case None
    with cl s1 show ?thesis by (simp add: simulateResolvedBoardH_def)
  next
    case (Some aref)
    let ?att = "pieceObjs h1 ! aref"
    let ?mv = "(fst (movePieceWithPromotionH h1 nb frm m), nb)"
    have smv: "separate h (fst ?mv) (snd ?mv)" using s1 by (simp add: separate_movePiece)
    show ?thesis
    proof (cases "getDefenderSquareForMove (boardOf h1 brd) m ?att")
      case None
      with cl Some have "simulateResolvedBoardH h brd frm m = ?mv"
        by (simp add: simulateResolvedBoardH_def)
      with smv show ?thesis by simp
    next
      case ds: (Some ds)
      show ?thesis
      proof (cases "refAt h1 nb (row ds) (col ds)")
        case None
        with cl Some ds have "simulateResolvedBoardH h brd frm m = ?mv"
          by (simp add: simulateResolvedBoardH_def)
        with smv show ?thesis by simp
      next
        case dref: (Some dref)
        let ?d = "pieceObjs h1 ! dref"
        let ?h2 = "setPiece h1 dref (?d\<lparr>hp := max 0 (hp ?d - getPieceDamage (type ?att))\<rparr>)"
        have s2: "separate h ?h2 nb"
          using s1 separate_refAt(1) [OF s1 dref] by (rule separate_setPiece)
        then have s3: "separate h (storeRef ?h2 nb (row ds) (col ds) None) nb"
          by (rule separate_storeNull)
        then have s4: "separate h
            (fst (movePieceWithPromotionH (storeRef ?h2 nb (row ds) (col ds) None) nb frm m)) nb"
          by (rule separate_movePiece)
        have "simulateResolvedBoardH h brd frm m = ?mv \<or>
              simulateResolvedBoardH h brd frm m = (?h2, nb) \<or>
              simulateResolvedBoardH h brd frm m =
                (fst (movePieceWithPromotionH (storeRef ?h2 nb (row ds) (col ds) None) nb frm m),
                 nb)"
          using cl Some ds dref by (simp add: simulateResolvedBoardH_def Let_def)
        with smv s2 s4 show ?thesis by auto
      qed
    qed
  qed
qed

section \<open>The store model computes what the value model computes\<close>

lemma board_eqI:
  assumes "wfBoard b" and "wfBoard b'" and "\<And>r c. inBounds r c \<Longrightarrow> cell b r c = cell b' r c"
  shows "b = b'"
proof (rule nth_equalityI)
  from assms(1,2) show "length b = length b'" by (simp add: wfBoard_def)
next
  fix i assume i: "i < length b"
  with assms(1,2) have li: "length (b ! i) = 8" "length (b' ! i) = 8" "i < 8"
    by (auto simp: wfBoard_def list_all_length)
  show "b ! i = b' ! i"
  proof (rule nth_equalityI)
    from li show "length (b ! i) = length (b' ! i)" by simp
  next
    fix j assume "j < length (b ! i)"
    with li have "inBounds (int i) (int j)" by (simp add: inBounds_def)
    from assms(3) [OF this] this show "b ! i ! j = b' ! i ! j" by (simp add: cell_def)
  qed
qed

lemma validBoard_row:
  assumes "validBoard h nb" and "inBounds r c"
  shows "nat r < length nb" and "validRow h (nb ! nat r)"
    and "nat c < length (rowArrays h ! (nb ! nat r))"
proof -
  from assms(2) have rc: "nat r < 8" "nat c < 8" by (auto simp: inBounds_def)
  with assms(1) show "nat r < length nb" by (simp add: validBoard_def)
  from rc assms(1) show v: "validRow h (nb ! nat r)"
    by (auto simp: validBoard_def list_all_length)
  with rc show "nat c < length (rowArrays h ! (nb ! nat r))" by (simp add: validRow_def)
qed

lemma wfBoard_boardOf: "validBoard h nb \<Longrightarrow> wfBoard (boardOf h nb)"
  by (auto simp: validBoard_def wfBoard_def boardOf_def list_all_iff validRow_def)

lemma cell_boardOf:
  assumes "validBoard h nb"
  shows "cell (boardOf h nb) r c = derefCell h (refAt h nb r c)"
proof (cases "inBounds r c")
  case False
  then show ?thesis by (simp add: cell_def refAt_def derefCell_def)
next
  case True
  note v = validBoard_row [OF assms True]
  from True v(1,3) show ?thesis by (simp add: cell_def refAt_def boardOf_def)
qed

lemma refAt_valid:
  assumes "validBoard h nb"
  shows "validRef h (refAt h nb r c)"
proof (cases "inBounds r c")
  case False
  then show ?thesis by (simp add: refAt_def validRef_def)
next
  case True
  note v = validBoard_row [OF assms True]
  from v(2) have "list_all (validRef h) (rowArrays h ! (nb ! nat r))" by (simp add: validRow_def)
  with v(3) True show ?thesis by (simp add: refAt_def list_all_length)
qed

lemma refAt_storeRef:
  assumes "validBoard h nb" and "distinct nb"
  shows "refAt (storeRef h nb r c v) nb r' c' =
     (if inBounds r c \<and> r' = r \<and> c' = c then v else refAt h nb r' c')"
proof (cases "inBounds r c \<and> inBounds r' c'")
  case False
  then show ?thesis by (auto simp: refAt_def storeRef_def)
next
  case True
  note v = validBoard_row [OF assms(1), of r c] validBoard_row [OF assms(1), of r' c']
  from True v have lt: "nat r < length nb" "nat r' < length nb"
    "nb ! nat r < length (rowArrays h)" "nat c < length (rowArrays h ! (nb ! nat r))"
    by (auto simp: validRow_def)
  from assms(2) lt(1,2) have inj: "(nb ! nat r = nb ! nat r') = (nat r = nat r')"
    by (simp add: nth_eq_iff_index_eq)
  from True have nn: "(nat r = nat r') = (r = r')" "(nat c = nat c') = (c = c')"
    by (auto simp: inBounds_def)
  show ?thesis
    using True lt inj nn by (auto simp: refAt_def storeRef_def nth_list_update)
qed

lemma validBoard_storeRef:
  assumes "validBoard h nb" and "validRef h v"
  shows "validBoard (storeRef h nb r c v) nb"
proof (cases "inBounds r c")
  case False
  with assms(1) show ?thesis by (simp add: storeRef_def)
next
  case True
  let ?ra = "nb ! nat r"
  let ?h' = "h\<lparr>rowArrays := (rowArrays h)[?ra := (rowArrays h ! ?ra)[nat c := v]]\<rparr>"
  have h': "storeRef h nb r c v = ?h'" using True by (simp add: storeRef_def)
  note row = validBoard_row [OF assms(1) True]
  have vr: "\<And>x. validRef ?h' x = validRef h x"
    by (simp add: validRef_def split: option.splits)
  have "\<And>ra2. validRow h ra2 \<Longrightarrow> validRow ?h' ra2"
  proof -
    fix ra2 assume o: "validRow h ra2"
    show "validRow ?h' ra2"
    proof (cases "ra2 = ?ra")
      case True
      with o assms(2) set_update_subset_insert [of "rowArrays h ! ?ra" "nat c" v]
      show ?thesis by (auto simp: validRow_def list_all_iff vr)
    next
      case False
      with o show ?thesis by (auto simp: validRow_def list_all_iff vr)
    qed
  qed
  with assms(1) show ?thesis unfolding h' by (auto simp: validBoard_def list_all_iff)
qed

lemma validBoard_newPiece: "validBoard h nb \<Longrightarrow> validBoard (fst (newPiece h p)) nb"
  using rows_extends(2) [OF extendsHeap_newPiece, of h nb p] by (simp add: validBoard_def)

lemma validBoard_setPiece: "validBoard h nb \<Longrightarrow> validBoard (setPiece h a p) nb"
  by (auto simp: validBoard_def validRow_def validRef_def setPiece_def list_all_iff
      split: option.splits)

lemma refAt_newPiece [simp]: "refAt (fst (newPiece h p)) nb r c = refAt h nb r c"
  by (simp add: refAt_def newPiece_def)

lemma refAt_setPiece [simp]: "refAt (setPiece h a p) nb r c = refAt h nb r c"
  by (simp add: refAt_def setPiece_def)

lemma boardOf_storeRef:
  assumes "validBoard h nb" and "distinct nb" and "validRef h v"
  shows "boardOf (storeRef h nb r c v) nb = setCell (boardOf h nb) r c (derefCell h v)"
proof (rule board_eqI)
  have v': "validBoard (storeRef h nb r c v) nb" using assms(1,3) by (rule validBoard_storeRef)
  then show "wfBoard (boardOf (storeRef h nb r c v) nb)" by (rule wfBoard_boardOf)
  show "wfBoard (setCell (boardOf h nb) r c (derefCell h v))"
    using wfBoard_boardOf [OF assms(1)] by simp
  fix r' c' assume "inBounds r' c'"
  have d: "\<And>x. derefCell (storeRef h nb r c v) x = derefCell h x"
    by (simp add: derefCell_def storeRef_def split: option.splits)
  show "cell (boardOf (storeRef h nb r c v) nb) r' c' =
        cell (setCell (boardOf h nb) r c (derefCell h v)) r' c'"
    unfolding cell_boardOf [OF v'] refAt_storeRef [OF assms(1,2)] d
    using wfBoard_boardOf [OF assms(1)]
    by (simp add: cell_setCell cell_boardOf [OF assms(1)])
qed

lemma boardOf_newPiece: "validBoard h nb \<Longrightarrow> boardOf (fst (newPiece h p)) nb = boardOf h nb"
  using boardOf_extends [OF extendsHeap_newPiece] .

lemma boardOf_setPiece_unreferenced:
  assumes "validBoard h nb" and "\<And>r c. refAt h nb r c \<noteq> Some a"
  shows "boardOf (setPiece h a p) nb = boardOf h nb"
proof (rule board_eqI)
  have v': "validBoard (setPiece h a p) nb" using assms(1) by (rule validBoard_setPiece)
  then show "wfBoard (boardOf (setPiece h a p) nb)" by (rule wfBoard_boardOf)
  show "wfBoard (boardOf h nb)" using assms(1) by (rule wfBoard_boardOf)
  fix r c assume "inBounds r c"
  from refAt_valid [OF assms(1), of r c] assms(2) [of r c]
  have "derefCell (setPiece h a p) (refAt h nb r c) = derefCell h (refAt h nb r c)"
    by (cases "refAt h nb r c") (auto simp: derefCell_def setPiece_def validRef_def)
  then show "cell (boardOf (setPiece h a p) nb) r c = cell (boardOf h nb) r c"
    by (simp add: cell_boardOf [OF v'] cell_boardOf [OF assms(1)])
qed

lemma boardOf_setPiece_at:
  assumes "validBoard h nb" and "refAt h nb r c = Some a"
    and "\<And>r' c'. refAt h nb r' c' = Some a \<Longrightarrow> r' = r \<and> c' = c"
  shows "boardOf (setPiece h a p) nb = setCell (boardOf h nb) r c (Some p)"
proof (rule board_eqI)
  have v': "validBoard (setPiece h a p) nb" using assms(1) by (rule validBoard_setPiece)
  then show "wfBoard (boardOf (setPiece h a p) nb)" by (rule wfBoard_boardOf)
  show "wfBoard (setCell (boardOf h nb) r c (Some p))"
    using wfBoard_boardOf [OF assms(1)] by simp
  fix r' c' assume "inBounds r' c'"
  from assms(2) have ib: "inBounds r c" by (simp add: refAt_def split: if_splits)
  from refAt_valid [OF assms(1), of r c] assms(2) have lt: "a < length (pieceObjs h)"
    by (simp add: validRef_def)
  show "cell (boardOf (setPiece h a p) nb) r' c' = cell (setCell (boardOf h nb) r c (Some p)) r' c'"
  proof (cases "refAt h nb r' c' = Some a")
    case True
    with assms(3) have rc: "r' = r" "c' = c" by auto
    have "cell (boardOf (setPiece h a p) nb) r' c' = derefCell (setPiece h a p) (Some a)"
      using True by (simp add: cell_boardOf [OF v'])
    also have "\<dots> = Some p" using lt by (simp add: derefCell_def setPiece_def)
    also have "\<dots> = cell (setCell (boardOf h nb) r c (Some p)) r' c'"
      using rc ib wfBoard_boardOf [OF assms(1)] by (simp add: cell_setCell)
    finally show ?thesis .
  next
    case False
    with assms(2) have ne: "\<not> (r' = r \<and> c' = c)" by auto
    from refAt_valid [OF assms(1), of r' c'] False
    have "derefCell (setPiece h a p) (refAt h nb r' c') = derefCell h (refAt h nb r' c')"
      by (cases "refAt h nb r' c'") (auto simp: derefCell_def setPiece_def validRef_def)
    then have "cell (boardOf (setPiece h a p) nb) r' c' = cell (boardOf h nb) r' c'"
      by (simp add: cell_boardOf [OF v'] cell_boardOf [OF assms(1)])
    also have "\<dots> = cell (setCell (boardOf h nb) r c (Some p)) r' c'"
      using ne wfBoard_boardOf [OF assms(1)] by (auto simp: cell_setCell)
    finally show ?thesis .
  qed
qed

lemma storeRef_pieceObjs [simp]: "pieceObjs (storeRef h nb r c v) = pieceObjs h"
  by (simp add: storeRef_def)

lemma store_new_piece:
  assumes "validBoard h nb" and "distinct nb"
  shows "boardOf (storeRef (fst (newPiece h p)) nb r c (Some (snd (newPiece h p)))) nb =
           setCell (boardOf h nb) r c (Some p)"
    and "validBoard (storeRef (fst (newPiece h p)) nb r c (Some (snd (newPiece h p)))) nb"
proof -
  let ?h1 = "fst (newPiece h p)"
  let ?a = "snd (newPiece h p)"
  have v1: "validBoard ?h1 nb" using assms(1) by (rule validBoard_newPiece)
  have va: "validRef ?h1 (Some ?a)" by (simp add: validRef_def newPiece_facts)
  have d: "derefCell ?h1 (Some ?a) = Some p" by (simp add: derefCell_def newPiece_facts)
  show "boardOf (storeRef ?h1 nb r c (Some ?a)) nb = setCell (boardOf h nb) r c (Some p)"
    unfolding boardOf_storeRef [OF v1 assms(2) va] d boardOf_newPiece [OF assms(1)] ..
  show "validBoard (storeRef ?h1 nb r c (Some ?a)) nb"
    using v1 va by (rule validBoard_storeRef)
qed

lemma store_null:
  assumes "validBoard h nb" and "distinct nb"
  shows "boardOf (storeRef h nb r c None) nb = setCell (boardOf h nb) r c None"
    and "validBoard (storeRef h nb r c None) nb"
proof -
  have vn: "validRef h None" by (simp add: validRef_def)
  show "boardOf (storeRef h nb r c None) nb = setCell (boardOf h nb) r c None"
    using boardOf_storeRef [OF assms vn, of r c] by (simp add: derefCell_def)
  show "validBoard (storeRef h nb r c None) nb" using assms(1) vn by (rule validBoard_storeRef)
qed

lemma castleRookH_refines:
  assumes "validBoard h nb" and "distinct nb"
  shows "boardOf (castleRookH h nb m) nb = castleRook (boardOf h nb) m"
    and "validBoard (castleRookH h nb m) nb"
proof -
  have "boardOf (castleRookH h nb m) nb = castleRook (boardOf h nb) m \<and>
        validBoard (castleRookH h nb m) nb"
  proof (cases "\<exists>rf rt. special m = Some Castle \<and> rookFromCol m = Some rf \<and>
      rookToCol m = Some rt")
    case False
    then have "castleRookH h nb m = h" "castleRook (boardOf h nb) m = boardOf h nb"
      by (auto simp: castleRookH_def castleRook_def split: option.splits Special.splits)
    with assms(1) show ?thesis by simp
  next
    case True
    then obtain rf rt where c: "special m = Some Castle" "rookFromCol m = Some rf"
      "rookToCol m = Some rt" by blast
    let ?h1 = "storeRef h nb (row m) rf None"
    note s1 = store_null [OF assms, of "row m" rf]
    have rk: "cell (boardOf h nb) (row m) rf = derefCell h (refAt h nb (row m) rf)"
      by (rule cell_boardOf [OF assms(1)])
    show ?thesis
    proof (cases "refAt h nb (row m) rf")
      case None
      with c s1 rk show ?thesis by (simp add: castleRookH_def castleRook_def derefCell_def)
    next
      case (Some ra)
      let ?p = "(copyPiece (pieceObjs ?h1 ! ra))\<lparr>moved := True\<rparr>"
      have h: "castleRookH h nb m =
          storeRef (fst (newPiece ?h1 ?p)) nb (row m) rt (Some (snd (newPiece ?h1 ?p)))"
        using c Some by (simp add: castleRookH_def Let_def split: prod.splits)
      have p: "castleRook (boardOf h nb) m =
          setCell (setCell (boardOf h nb) (row m) rf None) (row m) rt (Some ?p)"
        using c Some rk by (simp add: castleRook_def derefCell_def)
      from store_new_piece [OF s1(2) assms(2), of ?p "row m" rt] s1(1) show ?thesis
        unfolding h p by simp
    qed
  qed
  then show "boardOf (castleRookH h nb m) nb = castleRook (boardOf h nb) m"
    and "validBoard (castleRookH h nb m) nb" by simp_all
qed

lemma movePieceH_refines:
  assumes "validBoard h nb" and "distinct nb"
  shows "boardOf (fst (movePieceWithPromotionH h nb frm m)) nb =
           fst (movePieceWithPromotion (boardOf h nb) frm m)"
    and "validBoard (fst (movePieceWithPromotionH h nb frm m)) nb"
proof -
  have fr: "cell (boardOf h nb) (row frm) (col frm) = derefCell h (refAt h nb (row frm) (col frm))"
    by (rule cell_boardOf [OF assms(1)])
  have "boardOf (fst (movePieceWithPromotionH h nb frm m)) nb =
           fst (movePieceWithPromotion (boardOf h nb) frm m) \<and>
        validBoard (fst (movePieceWithPromotionH h nb frm m)) nb"
  proof (cases "refAt h nb (row frm) (col frm)")
    case None
    with fr assms(1) show ?thesis
      by (simp add: movePieceWithPromotionH_def movePieceWithPromotion_def derefCell_def
          boardOf_newPiece validBoard_newPiece)
  next
    case (Some a)
    let ?pc = "pieceObjs h ! a"
    let ?cap = "if color ?pc = White then row m + 1 else row m - 1"
    let ?h1 = "storeRef h nb (row frm) (col frm) None"
    let ?h2 = "if special m = Some EnPassant then storeRef ?h1 nb ?cap (col m) None else ?h1"
    let ?b1 = "setCell (boardOf h nb) (row frm) (col frm) None"
    let ?b2 = "if special m = Some EnPassant then setCell ?b1 ?cap (col m) None else ?b1"
    let ?p0 = "(copyPiece ?pc)\<lparr>moved := True\<rparr>"
    let ?h3 = "fst (newPiece ?h2 ?p0)"
    let ?mref = "snd (newPiece ?h2 ?p0)"
    let ?h4 = "setPiece ?h3 ?mref (promote (pieceObjs ?h3 ! ?mref) m)"
    let ?h5 = "storeRef ?h4 nb (row m) (col m) (Some ?mref)"
    note s1 = store_null [OF assms, of "row frm" "col frm"]
    have s2: "boardOf ?h2 nb = ?b2" "validBoard ?h2 nb"
      using s1 store_null [OF s1(2) assms(2), of ?cap "col m"] by auto
    have v3: "validBoard ?h3 nb" using s2(2) by (rule validBoard_newPiece)
    have b3: "boardOf ?h3 nb = ?b2" using boardOf_newPiece [OF s2(2)] s2(1) by simp
    have unref: "\<And>r c. refAt ?h3 nb r c \<noteq> Some ?mref"
    proof -
      fix r c
      from refAt_valid [OF s2(2), of r c] show "refAt ?h3 nb r c \<noteq> Some ?mref"
        by (cases "refAt ?h2 nb r c") (auto simp: validRef_def newPiece_facts)
    qed
    have v4: "validBoard ?h4 nb" using v3 by (rule validBoard_setPiece)
    have b4: "boardOf ?h4 nb = ?b2"
      using boardOf_setPiece_unreferenced [OF v3 unref] b3 by simp
    have p3: "pieceObjs ?h3 ! ?mref = ?p0" by (simp add: newPiece_facts)
    have vm: "validRef ?h4 (Some ?mref)"
      by (simp add: validRef_def setPiece_def newPiece_facts)
    have dm: "derefCell ?h4 (Some ?mref) = Some (promote ?p0 m)"
      unfolding p3 by (simp add: derefCell_def setPiece_def newPiece_facts)
    have b5: "boardOf ?h5 nb = setCell ?b2 (row m) (col m) (Some (promote ?p0 m))"
      unfolding boardOf_storeRef [OF v4 assms(2) vm] dm b4 ..
    have v5: "validBoard ?h5 nb" using v4 vm by (rule validBoard_storeRef)
    have hh: "fst (movePieceWithPromotionH h nb frm m) = castleRookH ?h5 nb m"
      using Some by (simp add: movePieceWithPromotionH_def Let_def split: prod.splits)
    have pp: "fst (movePieceWithPromotion (boardOf h nb) frm m) =
        castleRook (setCell ?b2 (row m) (col m) (Some (promote ?p0 m))) m"
      using Some fr by (simp add: movePieceWithPromotion_def Let_def derefCell_def)
    show ?thesis
      unfolding hh pp using castleRookH_refines [OF v5 assms(2), of m] b5 by simp
  qed
  then show "boardOf (fst (movePieceWithPromotionH h nb frm m)) nb =
           fst (movePieceWithPromotion (boardOf h nb) frm m)"
    and "validBoard (fst (movePieceWithPromotionH h nb frm m)) nb" by simp_all
qed

lemma cloneCells_inj:
  "cloneCells h xs = (h', ys) \<Longrightarrow> list_all (validRef h) xs \<Longrightarrow>
     j < length ys \<Longrightarrow> j' < length ys \<Longrightarrow> ys ! j = Some a \<Longrightarrow> ys ! j' = Some a \<Longrightarrow> j = j'"
proof (induction h xs arbitrary: h' ys j j' rule: cloneCells.induct)
  case (1 h)
  then show ?case by simp
next
  case (2 h xs)
  obtain h1 ys1 where c: "cloneCells h xs = (h1, ys1)" by (cases "cloneCells h xs") auto
  with "2.prems"(1) have e: "h' = h1" "ys = None # ys1" by auto
  from "2.prems"(5,6) e obtain k k' where k: "j = Suc k" "j' = Suc k'"
    by (cases j; cases j') auto
  with "2.prems" e have "k < length ys1" "k' < length ys1" "ys1 ! k = Some a" "ys1 ! k' = Some a"
    by auto
  from "2.IH" [OF c _ this] "2.prems"(2) k show ?case by simp
next
  case (3 h a0 xs)
  let ?h1 = "h\<lparr>pieceObjs := pieceObjs h @ [copyPiece (pieceObjs h ! a0)]\<rparr>"
  let ?a' = "length (pieceObjs h)"
  have np: "newPiece h (copyPiece (pieceObjs h ! a0)) = (?h1, ?a')"
    by (simp add: newPiece_def)
  have h1: "?h1 = fst (newPiece h (copyPiece (pieceObjs h ! a0)))" by (simp add: newPiece_def)
  obtain h2 ys2 where c: "cloneCells ?h1 xs = (h2, ys2)" by (cases "cloneCells ?h1 xs") auto
  from "3.prems"(1) have e: "h' = h2" "ys = Some ?a' # ys2"
    unfolding cloneCells.simps np using c by auto
  have e01: "extendsHeap h ?h1" unfolding h1 by (rule extendsHeap_newPiece)
  from "3.prems"(2) have vxs: "list_all (validRef h) xs" by simp
  with e01 have vxs1: "list_all (validRef ?h1) xs"
    by (auto simp: list_all_iff intro: validRef_extends)
  from cloneCells_spec [OF c vxs1] have fr: "list_all (freshRef ?h1 h2) ys2" by simp
  have later: "\<And>k. k < length ys2 \<Longrightarrow> ys2 ! k \<noteq> Some ?a'"
  proof
    fix k assume "k < length ys2" "ys2 ! k = Some ?a'"
    with fr have "freshRef ?h1 h2 (Some ?a')" by (auto simp: list_all_length)
    then show False by (simp add: freshRef_def)
  qed
  show ?case
  proof (cases j)
    case 0
    with "3.prems"(5) e have a: "a = ?a'" by simp
    show ?thesis
    proof (cases j')
      case 0
      with \<open>j = 0\<close> show ?thesis by simp
    next
      case (Suc k')
      with "3.prems"(4,6) e a later [of k'] show ?thesis by simp
    qed
  next
    case (Suc k)
    show ?thesis
    proof (cases j')
      case 0
      with "3.prems"(6) e have "a = ?a'" by simp
      with Suc "3.prems"(3,5) e later [of k] show ?thesis by simp
    next
      case (Suc k')
      with \<open>j = Suc k\<close> "3.prems" e
      have "k < length ys2" "k' < length ys2" "ys2 ! k = Some a" "ys2 ! k' = Some a" by auto
      from "3.IH" [OF np [symmetric] c vxs1 this] Suc \<open>j = Suc k\<close> show ?thesis by simp
    qed
  qed
qed

lemma cloneRows_inj:
  "cloneRows h ras = (h', ras') \<Longrightarrow> list_all (validRow h) ras \<Longrightarrow>
     distinct ras' \<and>
     (\<forall>i < length ras'. \<forall>i' < length ras'. \<forall>c c' a. c < 8 \<longrightarrow> c' < 8 \<longrightarrow>
        rowArrays h' ! (ras' ! i) ! c = Some a \<longrightarrow> rowArrays h' ! (ras' ! i') ! c' = Some a \<longrightarrow>
        i = i' \<and> c = c')"
proof (induction h ras arbitrary: h' ras' rule: cloneRows.induct)
  case (1 h)
  then show ?case by simp
next
  case (2 h ra ras)
  from "2.prems"(2) have vra: "validRow h ra" and vras: "list_all (validRow h) ras" by auto
  obtain h1 cells where c1: "cloneCells h (rowArrays h ! ra) = (h1, cells)"
    by (cases "cloneCells h (rowArrays h ! ra)") auto
  from vra have vcells: "list_all (validRef h) (rowArrays h ! ra)"
    and "length (rowArrays h ! ra) = 8" by (simp_all add: validRow_def)
  with cloneCells_spec [OF c1]
  have cs: "extendsHeap h h1" "rowArrays h1 = rowArrays h" "length cells = 8"
    "list_all (freshRef h h1) cells" by auto
  let ?h2 = "h1\<lparr>rowArrays := rowArrays h1 @ [cells]\<rparr>"
  let ?ra' = "length (rowArrays h1)"
  have nr: "newRow h1 cells = (?h2, ?ra')" by (simp add: newRow_def)
  have h2: "?h2 = fst (newRow h1 cells)" by (simp add: newRow_def)
  obtain h3 rest where c3: "cloneRows ?h2 ras = (h3, rest)" by (cases "cloneRows ?h2 ras") auto
  from "2.prems"(1) c3 have e: "h' = h3" "ras' = ?ra' # rest" by (simp_all add: c1 nr)
  have e12: "extendsHeap h1 ?h2" unfolding h2 by (rule extendsHeap_newRow)
  have e02: "extendsHeap h ?h2" using cs(1) e12 by (rule extendsHeap_trans)
  have v2: "list_all (validRow ?h2) ras" using rows_extends(2) [OF e02 vras] .
  from cloneRows_spec [OF c3 v2]
  have sp: "extendsHeap ?h2 h3" "list_all (ownedRow ?h2 h3) rest" by auto
  from "2.IH" [OF c1 [symmetric] nr [symmetric] c3 v2]
  have ih: "distinct rest"
    "\<And>i i' c c' a. i < length rest \<Longrightarrow> i' < length rest \<Longrightarrow> c < 8 \<Longrightarrow> c' < 8 \<Longrightarrow>
        rowArrays h3 ! (rest ! i) ! c = Some a \<Longrightarrow> rowArrays h3 ! (rest ! i') ! c' = Some a \<Longrightarrow>
        i = i' \<and> c = c'"
    by blast+
  have row3: "rowArrays h3 ! ?ra' = cells" using sp(1) by (simp add: extendsHeap_iff)
  have notin: "?ra' \<notin> set rest"
  proof
    assume "?ra' \<in> set rest"
    with sp(2) have "ownedRow ?h2 h3 ?ra'" by (simp add: list_all_iff)
    then show False by (simp add: ownedRow_def)
  qed
  have low: "\<And>c a. c < 8 \<Longrightarrow> cells ! c = Some a \<Longrightarrow> a < length (pieceObjs h1)"
  proof -
    fix c a assume "c < 8" "cells ! c = Some a"
    with cs(3,4) have "freshRef h h1 (Some a)" by (auto simp: list_all_length)
    then show "a < length (pieceObjs h1)" by (simp add: freshRef_def)
  qed
  have high: "\<And>k c a. k < length rest \<Longrightarrow> c < 8 \<Longrightarrow>
      rowArrays h3 ! (rest ! k) ! c = Some a \<Longrightarrow> length (pieceObjs h1) \<le> a"
  proof -
    fix k c a assume k: "k < length rest" and c: "c < 8"
      and a: "rowArrays h3 ! (rest ! k) ! c = Some a"
    from k sp(2) have "ownedRow ?h2 h3 (rest ! k)" by (simp add: list_all_length)
    with c a have "freshRef ?h2 h3 (Some a)"
      by (auto simp: ownedRow_def list_all_length)
    then show "length (pieceObjs h1) \<le> a" by (simp add: freshRef_def)
  qed
  have inj: "\<And>i i' c c' a. i < length (?ra' # rest) \<Longrightarrow> i' < length (?ra' # rest) \<Longrightarrow>
      c < 8 \<Longrightarrow> c' < 8 \<Longrightarrow>
      rowArrays h3 ! ((?ra' # rest) ! i) ! c = Some a \<Longrightarrow>
      rowArrays h3 ! ((?ra' # rest) ! i') ! c' = Some a \<Longrightarrow> i = i' \<and> c = c'"
  proof -
    fix i i' c c' a
    assume p: "i < length (?ra' # rest)" "i' < length (?ra' # rest)" "c < 8" "c' < 8"
      "rowArrays h3 ! ((?ra' # rest) ! i) ! c = Some a"
      "rowArrays h3 ! ((?ra' # rest) ! i') ! c' = Some a"
    show "i = i' \<and> c = c'"
    proof (cases i)
      case 0
      with p(5) row3 have a0: "cells ! c = Some a" by simp
      show ?thesis
      proof (cases i')
        case 0
        with p(6) row3 have "cells ! c' = Some a" by simp
        with cloneCells_inj [OF c1 vcells _ _ a0 this] p(3,4) cs(3) 0 \<open>i = 0\<close>
        show ?thesis by simp
      next
        case (Suc k')
        with p(2,6) have "k' < length rest" "rowArrays h3 ! (rest ! k') ! c' = Some a" by auto
        from high [OF this(1) p(4) this(2)] low [OF p(3) a0] show ?thesis by simp
      qed
    next
      case (Suc k)
      with p(1,5) have k: "k < length rest" "rowArrays h3 ! (rest ! k) ! c = Some a" by auto
      show ?thesis
      proof (cases i')
        case 0
        with p(6) row3 have "cells ! c' = Some a" by simp
        from high [OF k(1) p(3) k(2)] low [OF p(4) this] show ?thesis by simp
      next
        case (Suc k')
        with p(2,6) have "k' < length rest" "rowArrays h3 ! (rest ! k') ! c' = Some a" by auto
        from ih(2) [OF k(1) this(1) p(3,4) k(2) this(2)] Suc \<open>i = Suc k\<close> show ?thesis by simp
      qed
    qed
  qed
  show ?case unfolding e using ih(1) notin inj by simp
qed

lemma cloneBoardH_exclusive:
  assumes "validBoard h brd" and "cloneBoardH h brd = (h1, nb)"
  shows "validBoard h1 nb" and "distinct nb"
    and "\<And>r c r' c' a. refAt h1 nb r c = Some a \<Longrightarrow> refAt h1 nb r' c' = Some a \<Longrightarrow>
           r = r' \<and> c = c'"
proof -
  from assms have cr: "cloneRows h brd = (h1, nb)" and vr: "list_all (validRow h) brd"
    by (simp_all add: cloneBoardH_def validBoard_def)
  from cloneBoardH_spec(2) [OF assms] have o: "ownedOutside h h1 nb" .
  have "\<And>ra. ownedRow h h1 ra \<Longrightarrow> validRow h1 ra"
    by (auto simp: ownedRow_def validRow_def list_all_iff intro: freshRef_valid)
  with o show v: "validBoard h1 nb"
    by (auto simp: ownedOutside_def validBoard_def list_all_iff)
  from cloneRows_inj [OF cr vr] show "distinct nb" by simp
  fix r c r' c' a
  assume a: "refAt h1 nb r c = Some a" and a': "refAt h1 nb r' c' = Some a"
  then have ib: "inBounds r c" "inBounds r' c'" by (simp_all add: refAt_def split: if_splits)
  then have lt: "nat r < length nb" "nat r' < length nb" "nat c < 8" "nat c' < 8"
    using v by (auto simp: validBoard_def inBounds_def)
  from a a' ib have "rowArrays h1 ! (nb ! nat r) ! nat c = Some a"
    "rowArrays h1 ! (nb ! nat r') ! nat c' = Some a" by (simp_all add: refAt_def)
  with cloneRows_inj [OF cr vr] lt have "nat r = nat r' \<and> nat c = nat c'" by blast
  with ib show "r = r' \<and> c = c'" by (auto simp: inBounds_def)
qed

text \<open>
  \<^verbatim>\<open>simulateResolvedBoard\<close> run on the store returns a board that stands for the value
  the function on board values computes.
\<close>

lemma simulateResolvedBoardH_refines:
  assumes "validBoard h brd"
  shows "boardOf (fst (simulateResolvedBoardH h brd frm m)) (snd (simulateResolvedBoardH h brd frm m))
           = simulateResolvedBoard (boardOf h brd) frm m"
proof -
  let ?b = "boardOf h brd"
  obtain h1 nb where cl: "cloneBoardH h brd = (h1, nb)" by (cases "cloneBoardH h brd") auto
  note cs = cloneBoardH_spec [OF assms cl]
  note ex = cloneBoardH_exclusive [OF assms cl]
  have b1: "boardOf h1 nb = ?b" by (rule cs(3))
  have b0: "boardOf h1 brd = ?b" using cs(1) assms by (rule boardOf_extends)
  have cellb: "\<And>r c. cell ?b r c = derefCell h1 (refAt h1 nb r c)"
    using cell_boardOf [OF ex(1)] b1 by simp
  note mv = movePieceH_refines(1) [OF ex(1,2), of frm m]
  show ?thesis
  proof (cases "refAt h1 nb (row frm) (col frm)")
    case None
    with cl cellb [of "row frm" "col frm"] b1 show ?thesis
      by (simp add: simulateResolvedBoardH_def simulateResolvedBoard_def derefCell_def)
  next
    case (Some aref)
    let ?att = "pieceObjs h1 ! aref"
    from Some cellb [of "row frm" "col frm"]
    have att: "cell ?b (row frm) (col frm) = Some ?att" by (simp add: derefCell_def)
    show ?thesis
    proof (cases "getDefenderSquareForMove ?b m ?att")
      case None
      with cl Some att b0 b1 mv show ?thesis
        by (simp add: simulateResolvedBoardH_def simulateResolvedBoard_def)
    next
      case ds: (Some ds)
      show ?thesis
      proof (cases "refAt h1 nb (row ds) (col ds)")
        case None
        with cellb [of "row ds" "col ds"] have "cell ?b (row ds) (col ds) = None"
          by (simp add: derefCell_def)
        with cl Some att b0 b1 mv ds None show ?thesis
          by (simp add: simulateResolvedBoardH_def simulateResolvedBoard_def)
      next
        case dref: (Some dref)
        let ?d = "pieceObjs h1 ! dref"
        let ?hit = "?d\<lparr>hp := max 0 (hp ?d - getPieceDamage (type ?att))\<rparr>"
        let ?h2 = "setPiece h1 dref ?hit"
        from dref cellb [of "row ds" "col ds"]
        have d: "cell ?b (row ds) (col ds) = Some ?d" by (simp add: derefCell_def)
        from refAt_valid [OF ex(1), of "row ds" "col ds"] dref
        have lt: "dref < length (pieceObjs h1)" by (simp add: validRef_def)
        then have p2: "pieceObjs ?h2 ! dref = ?hit" by (simp add: setPiece_def)
        have b2: "boardOf ?h2 nb = setCell ?b (row ds) (col ds) (Some ?hit)"
          using boardOf_setPiece_at [OF ex(1) dref, of ?hit] ex(3) [OF _ dref] b1 by simp
        have v2: "validBoard ?h2 nb" using ex(1) by (rule validBoard_setPiece)
        note s3 = store_null [OF v2 ex(2), of "row ds" "col ds"]
        have b4: "boardOf (fst (movePieceWithPromotionH (storeRef ?h2 nb (row ds) (col ds) None)
              nb frm m)) nb =
            fst (movePieceWithPromotion
              (setCell (setCell ?b (row ds) (col ds) (Some ?hit)) (row ds) (col ds) None) frm m)"
          using movePieceH_refines(1) [OF s3(2) ex(2), of frm m] s3(1) b2 by simp
        show ?thesis
        proof (cases "color ?d \<noteq> color ?att")
          case False
          with cl Some att b0 b1 mv ds dref d show ?thesis
            by (simp add: simulateResolvedBoardH_def simulateResolvedBoard_def)
        next
          case True
          show ?thesis
          proof (cases "hp ?hit \<le> 0")
            case lethal: True
            have "simulateResolvedBoardH h brd frm m =
                (fst (movePieceWithPromotionH (storeRef ?h2 nb (row ds) (col ds) None) nb frm m),
                 nb)"
              using cl Some b0 ds dref True lethal p2
              by (simp add: simulateResolvedBoardH_def Let_def)
            moreover have "simulateResolvedBoard ?b frm m =
                fst (movePieceWithPromotion
                  (setCell (setCell ?b (row ds) (col ds) (Some ?hit)) (row ds) (col ds) None)
                  frm m)"
              using att ds d True lethal by (simp add: simulateResolvedBoard_def Let_def)
            ultimately show ?thesis using b4 by simp
          next
            case False
            have "simulateResolvedBoardH h brd frm m = (?h2, nb)"
              using cl Some b0 ds dref True False p2
              by (simp add: simulateResolvedBoardH_def Let_def)
            moreover have "simulateResolvedBoard ?b frm m =
                setCell ?b (row ds) (col ds) (Some ?hit)"
              using att ds d True False by (simp add: simulateResolvedBoard_def Let_def)
            ultimately show ?thesis using b2 by simp
          qed
        qed
      qed
    qed
  qed
qed

section \<open>Cloning\<close>

text \<open>
  C9. For a board valid in the store, \<^verbatim>\<open>cloneBoard\<close> returns a board with the same
  pieces on the same squares whose row arrays and piece objects are all new, none of
  them an address of the store it was cloned in. Therefore every sequence of writes
  through the clone (emptying a cell, putting a new piece into a cell, overwriting the
  fields of a piece in a cell) leaves the original board as it was, and so does
  \<^verbatim>\<open>simulateResolvedBoard\<close>: it keeps every row array and every piece object that
  existed before, while the board it returns is the resolved position.
\<close>

theorem clone_is_independent:
  assumes "validBoard h brd"
  shows "boardOf (fst (cloneBoardH h brd)) (snd (cloneBoardH h brd)) = boardOf h brd \<and>
         ownedOutside h (fst (cloneBoardH h brd)) (snd (cloneBoardH h brd)) \<and>
         (\<forall>mus. boardOf (applyMutations (snd (cloneBoardH h brd)) mus (fst (cloneBoardH h brd))) brd
                  = boardOf h brd) \<and>
         (\<forall>frm move. boardOf (fst (simulateResolvedBoardH h brd frm move)) brd = boardOf h brd \<and>
            extendsHeap h (fst (simulateResolvedBoardH h brd frm move)) \<and>
            boardOf (fst (simulateResolvedBoardH h brd frm move))
                (snd (simulateResolvedBoardH h brd frm move))
              = simulateResolvedBoard (boardOf h brd) frm move)"
proof -
  obtain h1 nb where cl: "cloneBoardH h brd = (h1, nb)" by (cases "cloneBoardH h brd") auto
  note cs = cloneBoardH_spec [OF assms cl]
  from cs(1,2) have s1: "separate h h1 nb" by (simp add: separate_def)
  have m: "\<forall>mus. boardOf (applyMutations nb mus h1) brd = boardOf h brd"
  proof
    fix mus
    from separate_mutations [OF s1, of mus] have "extendsHeap h (applyMutations nb mus h1)"
      by (simp add: separate_def)
    then show "boardOf (applyMutations nb mus h1) brd = boardOf h brd"
      using assms by (rule boardOf_extends)
  qed
  have s: "\<forall>frm move. boardOf (fst (simulateResolvedBoardH h brd frm move)) brd = boardOf h brd \<and>
            extendsHeap h (fst (simulateResolvedBoardH h brd frm move)) \<and>
            boardOf (fst (simulateResolvedBoardH h brd frm move))
                (snd (simulateResolvedBoardH h brd frm move))
              = simulateResolvedBoard (boardOf h brd) frm move"
  proof (intro allI)
    fix frm move
    from separate_simulate [OF assms, of frm move]
    have e: "extendsHeap h (fst (simulateResolvedBoardH h brd frm move))"
      by (simp add: separate_def)
    with boardOf_extends [OF e assms] simulateResolvedBoardH_refines [OF assms, of frm move]
    show "boardOf (fst (simulateResolvedBoardH h brd frm move)) brd = boardOf h brd \<and>
            extendsHeap h (fst (simulateResolvedBoardH h brd frm move)) \<and>
            boardOf (fst (simulateResolvedBoardH h brd frm move))
                (snd (simulateResolvedBoardH h brd frm move))
              = simulateResolvedBoard (boardOf h brd) frm move" by simp
  qed
  from cs(2,3) m s show ?thesis unfolding cl by simp
qed

theorem clone_is_independent_witness:
  "validBoard attackHeap attackRef \<and>
   boardOf attackHeap attackRef = attackBoard \<and>
   boardOf (fst (simulateResolvedBoardH attackHeap attackRef \<lparr>row = 4, col = 4\<rparr> (plainMove 3 5)))
       (snd (simulateResolvedBoardH attackHeap attackRef \<lparr>row = 4, col = 4\<rparr> (plainMove 3 5)))
     = simulateResolvedBoard attackBoard \<lparr>row = 4, col = 4\<rparr> (plainMove 3 5) \<and>
   simulateResolvedBoard attackBoard \<lparr>row = 4, col = 4\<rparr> (plainMove 3 5) \<noteq> attackBoard \<and>
   boardOf (fst (simulateResolvedBoardH attackHeap attackRef \<lparr>row = 4, col = 4\<rparr> (plainMove 3 5)))
       attackRef = attackBoard"
proof -
  let ?f = "\<lparr>row = 4, col = 4\<rparr> :: Square"
  let ?m = "plainMove 3 5"
  have v: "validBoard attackHeap attackRef" by code_simp
  have b: "boardOf attackHeap attackRef = attackBoard" by code_simp
  from clone_is_independent [OF v]
  have "boardOf (fst (simulateResolvedBoardH attackHeap attackRef ?f ?m))
       (snd (simulateResolvedBoardH attackHeap attackRef ?f ?m))
     = simulateResolvedBoard (boardOf attackHeap attackRef) ?f ?m" by blast
  then have r: "boardOf (fst (simulateResolvedBoardH attackHeap attackRef ?f ?m))
       (snd (simulateResolvedBoardH attackHeap attackRef ?f ?m))
     = simulateResolvedBoard attackBoard ?f ?m" unfolding b .
  have n: "simulateResolvedBoard attackBoard ?f ?m \<noteq> attackBoard" by code_simp
  from clone_is_independent [OF v]
  have "boardOf (fst (simulateResolvedBoardH attackHeap attackRef ?f ?m)) attackRef
      = boardOf attackHeap attackRef" by blast
  with v b r n show ?thesis by simp
qed

section \<open>The legality filter\<close>

lemma pawnMoves_attackMap: "pawnMoves lm b r c pc True = pawnMoves lm' b r c pc True"
  by (cases lm; cases lm') (simp_all add: pawnMoves_def Let_def)

lemma getPseudoMoves_attackMap:
  "getPseudoMoves lm b r c pc True = getPseudoMoves lm' b r c pc True"
  using pawnMoves_attackMap [of lm b r c pc lm']
  by (simp add: getPseudoMoves.simps [of lm b r c pc True]
      getPseudoMoves.simps [of lm' b r c pc True])

lemma isSquareAttacked_lastMove:
  "isSquareAttacked lm b tr tc ac = isSquareAttacked lm' b tr tc ac"
  unfolding isSquareAttacked_iff getPseudoMoves_attackMap [of lm _ _ _ _ lm'] ..

lemma isKingInCheck_lastMove: "isKingInCheck lm b clr = isKingInCheck lm' b clr"
  unfolding isKingInCheck_iff isSquareAttacked_lastMove [of lm _ _ _ _ lm'] ..

lemma getLegalMoves_iff:
  assumes "cell b (row frm) (col frm) = Some pc"
  shows "(m \<in> set (getLegalMoves lm b frm)) =
     (m \<in> set (getPseudoMoves lm b (row frm) (col frm) pc False) \<and>
      \<not> isKingInCheck lm (simulateResolvedBoard b frm m) (color pc))"
  using assms by (simp add: getLegalMoves_def)

lemma clearDefender_cell:
  assumes "wfBoard b"
  shows "cell (clearDefender b a m) r c =
     (if getDefenderSquareForMove b m a = Some \<lparr>row = r, col = c\<rparr> then None else cell b r c)"
proof (cases "getDefenderSquareForMove b m a")
  case None
  then show ?thesis by (simp add: clearDefender_def)
next
  case (Some ds)
  from getDefenderSquareForMove_Some(1) [OF Some] have "inBounds (row ds) (col ds)"
    using cell_Some_inBounds by blast
  moreover have "(ds = \<lparr>row = r, col = c\<rparr>) = (r = row ds \<and> c = col ds)" by (cases ds) auto
  ultimately show ?thesis using Some assms by (auto simp: clearDefender_def cell_setCell)
qed

lemma completed_cells:
  assumes wf: "wfBoard b" and a: "cell b (row frm) (col frm) = Some pc"
    and nl: "\<not> nonLethalAttack b pc m" and nc: "special m \<noteq> Some Castle"
    and tin: "inBounds (row m) (col m)"
  shows "cell (simulateResolvedBoard b frm m) r c =
     (if r = row m \<and> c = col m then Some (promote (pc\<lparr>moved := True\<rparr>) m)
      else if r = row frm \<and> c = col frm then None
      else if special m = Some EnPassant \<and> c = col m \<and>
              r = (if color pc = White then row m + 1 else row m - 1)
      then None
      else cell b r c)"
proof -
  note cd = clearDefender_origin [OF wf a, of m]
  have sim: "simulateResolvedBoard b frm m = fst (movePieceWithPromotion (clearDefender b pc m) frm m)"
    using simulate_eq_resolveCommit [OF a, of m] completed_board(1) [OF wf nl, of frm] by simp
  let ?cap = "if color pc = White then row m + 1 else row m - 1"
  have mc: "cell (fst (movePieceWithPromotion (clearDefender b pc m) frm m)) r c =
     (if r = row m \<and> c = col m then Some (promote (pc\<lparr>moved := True\<rparr>) m)
      else if r = row frm \<and> c = col frm then None
      else if special m = Some EnPassant \<and> c = col m \<and> r = ?cap then None
      else cell (clearDefender b pc m) r c)"
    by (rule movePiece_cell [OF cd(1) cd(2) nc tin])
  have last: "cell (clearDefender b pc m) r c = cell b r c"
    if "\<not> (r = row m \<and> c = col m)" "\<not> (special m = Some EnPassant \<and> c = col m \<and> r = ?cap)"
  proof -
    have "getDefenderSquareForMove b m pc \<noteq> Some \<lparr>row = r, col = c\<rparr>"
    proof
      assume d: "getDefenderSquareForMove b m pc = Some \<lparr>row = r, col = c\<rparr>"
      from getDefenderSquareForMove_Some(2,3) [OF d]
      have "c = col m" "r = (if special m = Some EnPassant then ?cap else row m)" by simp_all
      with that show False by (cases "special m = Some EnPassant") simp_all
    qed
    then show ?thesis by (simp add: clearDefender_cell [OF wf])
  qed
  show ?thesis
    unfolding sim mc
    apply (rule if_cong [OF refl refl])
    apply (rule if_cong [OF refl refl])
    apply (rule if_cong [OF refl refl])
    apply (rule last)
     apply assumption+
    done
qed

text \<open>
  C1. Let a move be returned by \<^verbatim>\<open>getLegalMoves\<close> for a piece on the board. It is one of
  the piece's pseudo-moves. The board \<^verbatim>\<open>simulateResolvedBoard\<close> makes of it is the board
  the combat rules prescribe: after an attack the defender survives, the board with the
  defender's hp lowered and nothing else changed; otherwise (castling apart) the board
  with the piece, promoted if it is due, on the target, its origin and the square of an
  en-passant capture empty, and every other square as before. It is also the board that
  \<^verbatim>\<open>commitMove\<close> installs. On that board the king of the moving piece's colour is not
  in check: no piece of the other colour has the king's square among the squares of its
  attack map. Conversely a pseudo-move is returned exactly when the board committing it
  yields leaves that king out of check.
\<close>

theorem getLegalMoves_king_not_attacked:
  assumes "wfBoard (board s)"
    and "\<not> isResolvingMove s"
    and "cell (board s) (row frm) (col frm) = Some pc"
    and "move \<in> set (getLegalMoves (lastMove s) (board s) frm)"
  shows "move \<in> set (getPseudoMoves (lastMove s) (board s) (row frm) (col frm) pc False) \<and>
         (nonLethalAttack (board s) pc move \<longrightarrow>
            (\<exists>ds d. getDefenderSquareForMove (board s) move pc = Some ds \<and>
               cell (board s) (row ds) (col ds) = Some d \<and>
               simulateResolvedBoard (board s) frm move =
                 setCell (board s) (row ds) (col ds)
                   (Some (d\<lparr>hp := hp d - getPieceDamage (type pc)\<rparr>)))) \<and>
         (\<not> nonLethalAttack (board s) pc move \<and> special move \<noteq> Some Castle \<longrightarrow>
            (\<forall>r c. cell (simulateResolvedBoard (board s) frm move) r c =
               (if r = row move \<and> c = col move then Some (promote (pc\<lparr>moved := True\<rparr>) move)
                else if r = row frm \<and> c = col frm then None
                else if special move = Some EnPassant \<and> c = col move \<and>
                        r = (if color pc = White then row move + 1 else row move - 1)
                then None
                else cell (board s) r c))) \<and>
         board (commitMove s frm move) = simulateResolvedBoard (board s) frm move \<and>
         (\<forall>lm. \<not> isKingInCheck lm (simulateResolvedBoard (board s) frm move) (color pc)) \<and>
         \<not> isKingInCheck (lastMove (commitMove s frm move)) (board (commitMove s frm move))
             (color pc) \<and>
         (\<forall>lm ks r c a.
            getKingSquare (board (commitMove s frm move)) (color pc) = Some ks \<longrightarrow>
            cell (board (commitMove s frm move)) r c = Some a \<longrightarrow>
            color a = enemyOf (color pc) \<longrightarrow>
            (\<forall>m \<in> set (getPseudoMoves lm (board (commitMove s frm move)) r c a True).
               \<not> (row m = row ks \<and> col m = col ks))) \<and>
         (\<forall>m \<in> set (getPseudoMoves (lastMove s) (board s) (row frm) (col frm) pc False).
            m \<in> set (getLegalMoves (lastMove s) (board s) frm) \<longleftrightarrow>
            \<not> isKingInCheck (lastMove (commitMove s frm m)) (board (commitMove s frm m))
                (color pc))"
proof -
  let ?b = "board s"
  let ?sim = "simulateResolvedBoard ?b frm move"
  have com: "\<And>m. board (commitMove s frm m) = simulateResolvedBoard ?b frm m"
    using commitMove_board [OF assms(2,3)] simulate_eq_resolveCommit [OF assms(3)] by simp
  from assms(4) have ps: "move \<in> set (getPseudoMoves (lastMove s) ?b (row frm) (col frm) pc False)"
    and safe: "\<not> isKingInCheck (lastMove s) ?sim (color pc)"
    unfolding getLegalMoves_iff [OF assms(3)] by simp_all
  from assms(3) have fin: "inBounds (row frm) (col frm)" by (rule cell_Some_inBounds)
  from getPseudoMoves_inBounds [OF ps fin] have tin: "inBounds (row move) (col move)"
    by (simp add: moveWithinBoard_def)
  have p2: "nonLethalAttack ?b pc move \<longrightarrow>
            (\<exists>ds d. getDefenderSquareForMove ?b move pc = Some ds \<and>
               cell ?b (row ds) (col ds) = Some d \<and>
               ?sim = setCell ?b (row ds) (col ds)
                   (Some (d\<lparr>hp := hp d - getPieceDamage (type pc)\<rparr>)))"
  proof
    assume "nonLethalAttack ?b pc move"
    then obtain ds d where ds: "getDefenderSquareForMove ?b move pc = Some ds"
      "cell ?b (row ds) (col ds) = Some d" "hp d > getPieceDamage (type pc)"
      by (auto simp: nonLethalAttack_def split: option.splits)
    from resolveCommit_nonLethal [OF assms(1) ds, of frm] simulate_eq_resolveCommit [OF assms(3), of move]
    have "?sim = setCell ?b (row ds) (col ds) (Some (d\<lparr>hp := hp d - getPieceDamage (type pc)\<rparr>))"
      by simp
    with ds(1,2) show "\<exists>ds d. getDefenderSquareForMove ?b move pc = Some ds \<and>
               cell ?b (row ds) (col ds) = Some d \<and>
               ?sim = setCell ?b (row ds) (col ds)
                   (Some (d\<lparr>hp := hp d - getPieceDamage (type pc)\<rparr>))" by blast
  qed
  have p3: "\<not> nonLethalAttack ?b pc move \<and> special move \<noteq> Some Castle \<longrightarrow>
            (\<forall>r c. cell ?sim r c =
               (if r = row move \<and> c = col move then Some (promote (pc\<lparr>moved := True\<rparr>) move)
                else if r = row frm \<and> c = col frm then None
                else if special move = Some EnPassant \<and> c = col move \<and>
                        r = (if color pc = White then row move + 1 else row move - 1)
                then None
                else cell ?b r c))"
    using completed_cells [OF assms(1,3) _ _ tin] by blast
  have p5: "\<forall>lm. \<not> isKingInCheck lm ?sim (color pc)"
    using safe isKingInCheck_lastMove by blast
  then have p6: "\<not> isKingInCheck (lastMove (commitMove s frm move)) (board (commitMove s frm move))
             (color pc)" unfolding com by blast
  have p7: "\<forall>lm ks r c a.
            getKingSquare (board (commitMove s frm move)) (color pc) = Some ks \<longrightarrow>
            cell (board (commitMove s frm move)) r c = Some a \<longrightarrow>
            color a = enemyOf (color pc) \<longrightarrow>
            (\<forall>m \<in> set (getPseudoMoves lm (board (commitMove s frm move)) r c a True).
               \<not> (row m = row ks \<and> col m = col ks))"
  proof (intro allI impI ballI)
    fix lm ks r c a m
    assume k: "getKingSquare (board (commitMove s frm move)) (color pc) = Some ks"
      and a: "cell (board (commitMove s frm move)) r c = Some a" "color a = enemyOf (color pc)"
      and m: "m \<in> set (getPseudoMoves lm (board (commitMove s frm move)) r c a True)"
    from p5 k have "\<not> isSquareAttacked lm (board (commitMove s frm move)) (row ks) (col ks)
        (enemyOf (color pc))"
      unfolding com by (simp add: isKingInCheck_iff)
    with a m show "\<not> (row m = row ks \<and> col m = col ks)"
      unfolding isSquareAttacked_iff by blast
  qed
  have p8: "\<forall>m \<in> set (getPseudoMoves (lastMove s) ?b (row frm) (col frm) pc False).
            m \<in> set (getLegalMoves (lastMove s) ?b frm) \<longleftrightarrow>
            \<not> isKingInCheck (lastMove (commitMove s frm m)) (board (commitMove s frm m))
                (color pc)"
    unfolding com getLegalMoves_iff [OF assms(3)]
    using isKingInCheck_lastMove by blast
  show ?thesis
    by (rule conjI [OF ps conjI [OF p2 conjI [OF p3 conjI [OF com conjI [OF p5
          conjI [OF p6 conjI [OF p7 p8]]]]]]])
qed

theorem getLegalMoves_king_not_attacked_witness:
  "wfBoard checkBoard \<and>
   cell checkBoard 7 4 = Some (createPiece White King) \<and>
   plainMove 7 3 \<in> set (getLegalMoves None checkBoard \<lparr>row = 7, col = 4\<rparr>) \<and>
   cell (simulateResolvedBoard checkBoard \<lparr>row = 7, col = 4\<rparr> (plainMove 7 3)) 7 3
     = Some ((createPiece White King)\<lparr>moved := True\<rparr>) \<and>
   cell (simulateResolvedBoard checkBoard \<lparr>row = 7, col = 4\<rparr> (plainMove 7 3)) 7 4 = None \<and>
   \<not> isKingInCheck None
       (board (commitMove (sceneOf checkBoard White None) \<lparr>row = 7, col = 4\<rparr> (plainMove 7 3)))
       White \<and>
   plainMove 6 4 \<in> set (getPseudoMoves None checkBoard 7 4 (createPiece White King) False) \<and>
   isKingInCheck None
       (board (commitMove (sceneOf checkBoard White None) \<lparr>row = 7, col = 4\<rparr> (plainMove 6 4)))
       White \<and>
   plainMove 6 4 \<notin> set (getLegalMoves None checkBoard \<lparr>row = 7, col = 4\<rparr>)"
proof -
  let ?s = "sceneOf checkBoard White None"
  let ?f = "\<lparr>row = 7, col = 4\<rparr> :: Square"
  let ?k = "createPiece White King"
  have b: "board ?s = checkBoard" "lastMove ?s = None" by (simp_all add: sceneOf_def)
  have h1: "wfBoard (board ?s)" by code_simp
  have h2: "\<not> isResolvingMove ?s" by code_simp
  have h3: "cell (board ?s) (row ?f) (col ?f) = Some ?k" by code_simp
  have h4: "plainMove 7 3 \<in> set (getLegalMoves (lastMove ?s) (board ?s) ?f)" by code_simp
  have nl: "\<not> nonLethalAttack (board ?s) ?k (plainMove 7 3) \<and>
      special (plainMove 7 3) \<noteq> Some Castle" by code_simp
  have ps: "plainMove 6 4 \<in> set (getPseudoMoves (lastMove ?s) (board ?s) (row ?f) (col ?f) ?k False)"
    by code_simp
  have chk: "isKingInCheck (lastMove (commitMove ?s ?f (plainMove 6 4)))
      (board (commitMove ?s ?f (plainMove 6 4))) (color ?k)" by code_simp
  have chk': "isKingInCheck None (board (commitMove ?s ?f (plainMove 6 4))) White" by code_simp
  have ck: "color ?k = White" by (simp add: createPiece_def)
  note T = getLegalMoves_king_not_attacked [OF h1 h2 h3 h4]
  from T nl have cells: "\<forall>r c. cell (simulateResolvedBoard (board ?s) ?f (plainMove 7 3)) r c =
      (if r = row (plainMove 7 3) \<and> c = col (plainMove 7 3)
       then Some (promote (?k\<lparr>moved := True\<rparr>) (plainMove 7 3))
       else if r = row ?f \<and> c = col ?f then None
       else if special (plainMove 7 3) = Some EnPassant \<and> c = col (plainMove 7 3) \<and>
               r = (if color ?k = White then row (plainMove 7 3) + 1 else row (plainMove 7 3) - 1)
       then None
       else cell (board ?s) r c)" by blast
  have c1: "cell (simulateResolvedBoard checkBoard ?f (plainMove 7 3)) 7 3
      = Some (?k\<lparr>moved := True\<rparr>)"
    using cells [rule_format, of 7 3] by (simp add: b plainMove_def promote_def createPiece_def)
  have c2: "cell (simulateResolvedBoard checkBoard ?f (plainMove 7 3)) 7 4 = None"
    using cells [rule_format, of 7 4] by (simp add: b plainMove_def)
  from T have "\<forall>lm. \<not> isKingInCheck lm (simulateResolvedBoard (board ?s) ?f (plainMove 7 3)) (color ?k)"
    and "board (commitMove ?s ?f (plainMove 7 3)) = simulateResolvedBoard (board ?s) ?f (plainMove 7 3)"
    by blast+
  then have safe: "\<not> isKingInCheck None (board (commitMove ?s ?f (plainMove 7 3))) White"
    using ck by simp
  from T have "\<forall>m \<in> set (getPseudoMoves (lastMove ?s) (board ?s) (row ?f) (col ?f) ?k False).
      m \<in> set (getLegalMoves (lastMove ?s) (board ?s) ?f) \<longleftrightarrow>
      \<not> isKingInCheck (lastMove (commitMove ?s ?f m)) (board (commitMove ?s ?f m)) (color ?k)"
    by blast
  from this [THEN bspec, OF ps] chk
  have out: "plainMove 6 4 \<notin> set (getLegalMoves (lastMove ?s) (board ?s) ?f)" by blast
  from h1 h3 h4 c1 c2 safe ps chk' out show ?thesis by (simp add: b)
qed

section \<open>Kings in the positions of a game\<close>

lemma kingsInv_iff:
  "kingsInv b =
     (wfBoard b \<and>
      (\<forall>r c k. cell b r c = Some k \<and> type k = King \<longrightarrow>
         (moved k \<or> c = 4) \<and> getKingSquare b (color k) = Some \<lparr>row = r, col = c\<rparr>))"
proof -
  have "(\<forall>rc \<in> set allSquares. case cell b (fst rc) (snd rc) of
            None \<Rightarrow> True
          | Some k \<Rightarrow> type k \<noteq> King \<or>
              ((moved k \<or> snd rc = 4) \<and>
               getKingSquare b (color k) = Some \<lparr>row = fst rc, col = snd rc\<rparr>)) =
        (\<forall>r c k. cell b r c = Some k \<and> type k = King \<longrightarrow>
           (moved k \<or> c = 4) \<and> getKingSquare b (color k) = Some \<lparr>row = r, col = c\<rparr>)"
    (is "?L = ?R")
  proof
    assume l: ?L
    show ?R
    proof (intro allI impI)
      fix r c k assume k: "cell b r c = Some k \<and> type k = King"
      then have "inBounds r c" using cell_Some_inBounds by blast
      then have "(r, c) \<in> set allSquares" by (simp add: set_allSquares)
      from l [THEN bspec, OF this] k
      show "(moved k \<or> c = 4) \<and> getKingSquare b (color k) = Some \<lparr>row = r, col = c\<rparr>"
        by simp
    qed
  next
    assume r: ?R
    show ?L
    proof
      fix rc assume "rc \<in> set allSquares"
      show "case cell b (fst rc) (snd rc) of
            None \<Rightarrow> True
          | Some k \<Rightarrow> type k \<noteq> King \<or>
              ((moved k \<or> snd rc = 4) \<and>
               getKingSquare b (color k) = Some \<lparr>row = fst rc, col = snd rc\<rparr>)"
        using r by (cases "cell b (fst rc) (snd rc)") auto
    qed
  qed
  then show ?thesis by (simp add: kingsInv_def list_all_iff)
qed

lemma getKingSquare_unique:
  assumes k: "cell b r c = Some k" "type k = King"
    and u: "\<And>r' c' k'. cell b r' c' = Some k' \<Longrightarrow> type k' = King \<Longrightarrow> color k' = color k
              \<Longrightarrow> r' = r \<and> c' = c"
  shows "getKingSquare b (color k) = Some \<lparr>row = r, col = c\<rparr>"
proof (cases "getKingSquare b (color k)")
  case None
  with getKingSquare_None_iff [of b "color k"] k show ?thesis by blast
next
  case (Some ks)
  from getKingSquare_Some [OF Some]
  obtain k' where "cell b (row ks) (col ks) = Some k'" "color k' = color k" "type k' = King"
    by blast
  from u [OF this(1) this(3) this(2)] have "row ks = r \<and> col ks = c" .
  with Some show ?thesis by (cases ks) simp
qed

lemma kingsInvI:
  assumes wf: "wfBoard b"
    and mv: "\<And>r c k. cell b r c = Some k \<Longrightarrow> type k = King \<Longrightarrow> moved k \<or> c = 4"
    and un: "\<And>r c k r' c' k'. cell b r c = Some k \<Longrightarrow> type k = King \<Longrightarrow>
               cell b r' c' = Some k' \<Longrightarrow> type k' = King \<Longrightarrow> color k' = color k
               \<Longrightarrow> r' = r \<and> c' = c"
  shows "kingsInv b"
  unfolding kingsInv_iff
proof (intro conjI allI impI)
  show "wfBoard b" by (rule wf)
next
  fix r c k assume "cell b r c = Some k \<and> type k = King"
  then show "moved k \<or> c = 4" using mv by blast
next
  fix r c k assume h: "cell b r c = Some k \<and> type k = King"
  then have k: "cell b r c = Some k" "type k = King" by simp_all
  show "getKingSquare b (color k) = Some \<lparr>row = r, col = c\<rparr>"
    by (rule getKingSquare_unique [OF k]) (rule un [OF k])
qed

lemma kingsInvD:
  assumes "kingsInv b"
  shows "wfBoard b"
    and "\<And>r c k. cell b r c = Some k \<Longrightarrow> type k = King \<Longrightarrow> moved k \<or> c = 4"
    and "\<And>r c k. cell b r c = Some k \<Longrightarrow> type k = King \<Longrightarrow>
           getKingSquare b (color k) = Some \<lparr>row = r, col = c\<rparr>"
    and "\<And>r c k r' c' k'. cell b r c = Some k \<Longrightarrow> type k = King \<Longrightarrow>
           cell b r' c' = Some k' \<Longrightarrow> type k' = King \<Longrightarrow> color k' = color k
           \<Longrightarrow> r' = r \<and> c' = c"
proof -
  from assms show wf: "wfBoard b" by (simp add: kingsInv_iff)
  show a: "\<And>r c k. cell b r c = Some k \<Longrightarrow> type k = King \<Longrightarrow> moved k \<or> c = 4"
    using assms unfolding kingsInv_iff by blast
  show g: "\<And>r c k. cell b r c = Some k \<Longrightarrow> type k = King \<Longrightarrow>
           getKingSquare b (color k) = Some \<lparr>row = r, col = c\<rparr>"
    using assms unfolding kingsInv_iff by blast
  fix r c k r' c' k'
  assume k: "cell b r c = Some k" "type k = King"
    and k': "cell b r' c' = Some k'" "type k' = King" and c: "color k' = color k"
  from g [OF k] g [OF k'] c show "r' = r \<and> c' = c" by simp
qed

text \<open>In a position of the invariant the king's colour is in check when its square is attacked.\<close>

lemma king_check_square:
  assumes "kingsInv b" and "cell b r c = Some k" and "type k = King"
  shows "isKingInCheck lm b (color k) = isSquareAttacked lm b r c (enemyOf (color k))"
  unfolding isKingInCheck_iff kingsInvD(3) [OF assms] by simp

text \<open>A blow that the defender survives changes the hp of one piece.\<close>

lemma kingsInv_nonLethal:
  assumes inv: "kingsInv b" and d: "cell b r0 c0 = Some d"
  shows "kingsInv (setCell b r0 c0 (Some (d\<lparr>hp := h\<rparr>)))"
proof -
  let ?b' = "setCell b r0 c0 (Some (d\<lparr>hp := h\<rparr>))"
  note wf = kingsInvD(1) [OF inv]
  have same: "\<exists>k0. cell b r c = Some k0 \<and> type k0 = type k \<and> color k0 = color k \<and>
      moved k0 = moved k" if "cell ?b' r c = Some k" for r c k
  proof (cases "inBounds r0 c0 \<and> r = r0 \<and> c = c0")
    case True
    with that wf have "k = d\<lparr>hp := h\<rparr>" by (simp add: cell_setCell)
    with True d show ?thesis by simp
  next
    case False
    with that wf have "cell b r c = Some k" by (simp add: cell_setCell)
    then show ?thesis by simp
  qed
  show ?thesis
  proof (rule kingsInvI)
    show "wfBoard ?b'" using wf by simp
  next
    fix r c k assume "cell ?b' r c = Some k" "type k = King"
    with same [OF this(1)] kingsInvD(2) [OF inv] show "moved k \<or> c = 4" by metis
  next
    fix r c k r' c' k'
    assume k: "cell ?b' r c = Some k" "type k = King"
      and k': "cell ?b' r' c' = Some k'" "type k' = King" "color k' = color k"
    from same [OF k(1)] k(2) obtain k0 where k0: "cell b r c = Some k0" "type k0 = King"
      "color k0 = color k" by auto
    from same [OF k'(1)] k'(2) obtain k1 where k1: "cell b r' c' = Some k1" "type k1 = King"
      "color k1 = color k'" by auto
    from kingsInvD(4) [OF inv k0(1,2) k1(1,2)] k0(3) k1(3) k'(3)
    show "r' = r \<and> c' = c" by simp
  qed
qed

text \<open>
  A relocation: every king of the new board is the piece that moved, now marked moved,
  or a king that stood on the same square before.
\<close>

lemma kingsInv_relocate:
  assumes inv: "kingsInv b" and wf': "wfBoard b'"
    and o: "cell b fr fc = Some pc"
    and sh: "\<And>r c k. cell b' r c = Some k \<Longrightarrow> type k = King \<Longrightarrow>
       (r = tr \<and> c = tc \<and> type pc = King \<and> color k = color pc \<and> moved k) \<or>
       (\<not> (r = fr \<and> c = fc) \<and> \<not> (r = tr \<and> c = tc) \<and> cell b r c = Some k)"
  shows "kingsInv b'"
proof (rule kingsInvI)
  show "wfBoard b'" by (rule wf')
next
  fix r c k assume k: "cell b' r c = Some k" "type k = King"
  from sh [OF k] kingsInvD(2) [OF inv _ k(2)] show "moved k \<or> c = 4" by blast
next
  fix r c k r' c' k'
  assume k: "cell b' r c = Some k" "type k = King"
    and k': "cell b' r' c' = Some k'" "type k' = King" and cl: "color k' = color k"
  from sh [OF k] consider
      (t) "r = tr" "c = tc" "type pc = King" "color k = color pc"
    | (s) "\<not> (r = fr \<and> c = fc)" "\<not> (r = tr \<and> c = tc)" "cell b r c = Some k" by blast
  then show "r' = r \<and> c' = c"
  proof cases
    case t
    from sh [OF k'] consider
        (t') "r' = tr" "c' = tc"
      | (s') "\<not> (r' = fr \<and> c' = fc)" "cell b r' c' = Some k'" by blast
    then show ?thesis
    proof cases
      case t'
      with t show ?thesis by simp
    next
      case s'
      from kingsInvD(4) [OF inv o t(3) s'(2) k'(2)] cl t(4) s'(1) show ?thesis by simp
    qed
  next
    case s
    from sh [OF k'] consider
        (t') "r' = tr" "c' = tc" "type pc = King" "color k' = color pc"
      | (s') "cell b r' c' = Some k'" by blast
    then show ?thesis
    proof cases
      case t'
      from kingsInvD(4) [OF inv o t'(3) s(3) k(2)] cl t'(4) s(1) show ?thesis by simp
    next
      case s'
      from kingsInvD(4) [OF inv s(3) k(2) s' k'(2) cl] show ?thesis .
    qed
  qed
qed

lemma promote_King:
  "type (promote (pc\<lparr>moved := True\<rparr>) m) = King \<Longrightarrow>
     type pc = King \<and> color (promote (pc\<lparr>moved := True\<rparr>) m) = color pc \<and>
     moved (promote (pc\<lparr>moved := True\<rparr>) m)"
  by (simp add: promote_def split: if_splits)

lemma wfBoard_clearDefender: "wfBoard (clearDefender b a m) = wfBoard b"
  by (simp add: clearDefender_def split: option.splits)

lemma wfBoard_simulate:
  assumes "wfBoard b" and "cell b (row frm) (col frm) = Some pc"
  shows "wfBoard (simulateResolvedBoard b frm m)"
proof (cases "nonLethalAttack b pc m")
  case True
  then obtain ds d where ds: "getDefenderSquareForMove b m pc = Some ds"
      "cell b (row ds) (col ds) = Some d" "hp d > getPieceDamage (type pc)"
    by (auto simp: nonLethalAttack_def split: option.splits)
  from resolveCommit_nonLethal [OF assms(1) ds, of frm] simulate_eq_resolveCommit [OF assms(2), of m]
  show ?thesis using assms(1) by simp
next
  case False
  from completed_board(1) [OF assms(1) False, of frm] simulate_eq_resolveCommit [OF assms(2), of m]
  show ?thesis using assms(1) by (simp add: wfBoard_clearDefender)
qed

text \<open>Castling from the home column, square by square.\<close>

lemma castle_cells:
  assumes wf: "wfBoard b"
    and k: "cell b r 4 = Some pc" and ty: "type pc = King"
    and rook: "cell b r rf = Some rook"
    and free: "cell b r kt = None"
    and rng: "0 \<le> kt" "kt < 8" "0 \<le> rf" "rf < 8" "0 \<le> rt" "rt < 8"
    and dist: "kt \<noteq> 4" "rf \<noteq> 4" "rt \<noteq> 4" "kt \<noteq> rf" "kt \<noteq> rt" "rf \<noteq> rt"
    and m: "m = \<lparr>row = r, col = kt, special = Some Castle,
                 rookFromCol = Some rf, rookToCol = Some rt\<rparr>"
  shows "cell (simulateResolvedBoard b \<lparr>row = r, col = 4\<rparr> m) r' c' =
     (if r' = r \<and> c' = rt then Some (rook\<lparr>moved := True\<rparr>)
      else if r' = r \<and> c' = rf then None
      else if r' = r \<and> c' = kt then Some (pc\<lparr>moved := True\<rparr>)
      else if r' = r \<and> c' = 4 then None
      else cell b r' c')"
proof -
  let ?frm = "\<lparr>row = r, col = 4\<rparr> :: Square"
  let ?b1 = "setCell b r 4 None"
  let ?b3 = "setCell ?b1 r kt (Some (pc\<lparr>moved := True\<rparr>))"
  let ?b4 = "setCell ?b3 r rf None"
  let ?b5 = "setCell ?b4 r rt (Some (rook\<lparr>moved := True\<rparr>))"
  from k have "inBounds r 4" by (rule cell_Some_inBounds)
  then have ib: "inBounds r kt" "inBounds r rf" "inBounds r rt" "inBounds r 4"
    using rng by (simp_all add: inBounds_def)
  have nodef: "getDefenderSquareForMove b m pc = None"
    using free by (simp add: getDefenderSquareForMove_def m)
  then have nl: "\<not> nonLethalAttack b pc m" and cd: "clearDefender b pc m = b"
    by (simp_all add: nonLethalAttack_def clearDefender_def)
  have r3: "cell ?b3 r rf = Some rook"
    using wf ib dist rook by (simp add: cell_setCell)
  have mp: "fst (movePieceWithPromotion b ?frm m) = ?b5"
    using k ty r3 by (simp add: movePieceWithPromotion_def castleRook_def promote_def m Let_def)
  have "simulateResolvedBoard b ?frm m = fst (resolveCommit b pc ?frm m)"
    using simulate_eq_resolveCommit [of b ?frm pc m] k by simp
  then have eq: "simulateResolvedBoard b ?frm m = ?b5"
    using completed_board(1) [OF wf nl, of ?frm] cd mp by simp
  show ?thesis
    unfolding eq using wf ib by (simp add: cell_setCell)
qed

text \<open>Every generated move, resolved, keeps the bookkeeping of kings.\<close>

lemma kingsInv_simulate:
  assumes inv: "kingsInv b" and o: "cell b (row frm) (col frm) = Some pc"
    and m: "m \<in> set (getPseudoMoves lm b (row frm) (col frm) pc False)"
  shows "kingsInv (simulateResolvedBoard b frm m)"
proof -
  note wf = kingsInvD(1) [OF inv]
  from o have fin: "inBounds (row frm) (col frm)" by (rule cell_Some_inBounds)
  from getPseudoMoves_inBounds [OF m fin] have tin: "inBounds (row m) (col m)"
    by (simp add: moveWithinBoard_def)
  note wf' = wfBoard_simulate [OF wf o, of m]
  consider (hit) "nonLethalAttack b pc m"
    | (move) "\<not> nonLethalAttack b pc m" "special m \<noteq> Some Castle"
    | (castle) "\<not> nonLethalAttack b pc m" "special m = Some Castle" by blast
  then show ?thesis
  proof cases
    case hit
    then obtain ds d where ds: "getDefenderSquareForMove b m pc = Some ds"
        "cell b (row ds) (col ds) = Some d" "hp d > getPieceDamage (type pc)"
      by (auto simp: nonLethalAttack_def split: option.splits)
    from resolveCommit_nonLethal [OF wf ds, of frm] simulate_eq_resolveCommit [OF o, of m]
    have "simulateResolvedBoard b frm m =
        setCell b (row ds) (col ds) (Some (d\<lparr>hp := hp d - getPieceDamage (type pc)\<rparr>))"
      by simp
    then show ?thesis using kingsInv_nonLethal [OF inv ds(2)] by simp
  next
    case move
    note cells = completed_cells [OF wf o move tin]
    show ?thesis
    proof (rule kingsInv_relocate [OF inv wf' o, of "row m" "col m"])
      fix r c k
      assume k: "cell (simulateResolvedBoard b frm m) r c = Some k" and ty: "type k = King"
      show "(r = row m \<and> c = col m \<and> type pc = King \<and> color k = color pc \<and> moved k) \<or>
            (\<not> (r = row frm \<and> c = col frm) \<and> \<not> (r = row m \<and> c = col m) \<and>
             cell b r c = Some k)"
      proof (cases "r = row m \<and> c = col m")
        case True
        with k cells [of r c] have "k = promote (pc\<lparr>moved := True\<rparr>) m" by simp
        with ty promote_King [of pc m] True show ?thesis by simp
      next
        case False
        with k cells [of r c] have "\<not> (r = row frm \<and> c = col frm) \<and> cell b r c = Some k"
          by (simp split: if_splits)
        with False show ?thesis by simp
      qed
    qed
  next
    case castle
    from getPseudoMoves_shape [OF m fin] castle(2)
    have ty: "type pc = King" by (auto simp: plainMove_def)
    from m castle(2) king_castle_moves [OF ty, of m lm b "row frm" "col frm" False]
    obtain side where side: "side \<in> set castleSides" "m = castleMove (row frm) side"
      "rookReady b (row frm) pc side" "\<not> blocked b (row frm) side" and nm: "\<not> moved pc"
      by blast
    from kingsInvD(2) [OF inv o ty] nm have c4: "col frm = 4" by simp
    then have frm: "frm = \<lparr>row = row frm, col = 4\<rparr>" by (cases frm) simp
    from o c4 have k4: "cell b (row frm) 4 = Some pc" by simp
    from side(3) obtain rook where rook: "cell b (row frm) (rookCol side) = Some rook"
      "type rook = Rook"
      by (auto simp: rookReady_def split: option.splits)
    from side(1) consider
        (kingside) "side = \<lparr>rookCol = 7, passCols = [5, 6], kingTargetCol = 6, rookTargetCol = 5\<rparr>"
      | (queenside) "side = \<lparr>rookCol = 0, passCols = [1, 2, 3], kingTargetCol = 2, rookTargetCol = 3\<rparr>"
      by (auto simp: castleSides_def)
    then obtain kt rf rt where
      mm: "m = \<lparr>row = row frm, col = kt, special = Some Castle,
          rookFromCol = Some rf, rookToCol = Some rt\<rparr>"
      and free: "cell b (row frm) kt = None" and rk: "cell b (row frm) rf = Some rook"
      and rng: "0 \<le> kt" "kt < 8" "0 \<le> rf" "rf < 8" "0 \<le> rt" "rt < 8"
      and dist: "kt \<noteq> 4" "rf \<noteq> 4" "rt \<noteq> 4" "kt \<noteq> rf" "kt \<noteq> rt" "rf \<noteq> rt"
    proof cases
      case kingside
      show ?thesis
        by (rule that [of 6 7 5])
          (use kingside side(2,4) rook in \<open>simp_all add: castleMove_def blocked_def\<close>)
    next
      case queenside
      show ?thesis
        by (rule that [of 2 0 3])
          (use queenside side(2,4) rook in \<open>simp_all add: castleMove_def blocked_def\<close>)
    qed
    have cells: "\<And>r' c'. cell (simulateResolvedBoard b frm m) r' c' =
       (if r' = row frm \<and> c' = rt then Some (rook\<lparr>moved := True\<rparr>)
        else if r' = row frm \<and> c' = rf then None
        else if r' = row frm \<and> c' = kt then Some (pc\<lparr>moved := True\<rparr>)
        else if r' = row frm \<and> c' = 4 then None
        else cell b r' c')"
      using castle_cells [OF wf k4 ty rk free rng dist mm] frm by simp
    show ?thesis
    proof (rule kingsInv_relocate [OF inv wf' o, of "row frm" kt])
      fix r c k
      assume k: "cell (simulateResolvedBoard b frm m) r c = Some k" and tk: "type k = King"
      from k tk rook(2) have n1: "\<not> (r = row frm \<and> c = rt)" unfolding cells by auto
      show "(r = row frm \<and> c = kt \<and> type pc = King \<and> color k = color pc \<and> moved k) \<or>
            (\<not> (r = row frm \<and> c = col frm) \<and> \<not> (r = row frm \<and> c = kt) \<and>
             cell b r c = Some k)"
      proof (cases "r = row frm \<and> c = kt")
        case True
        with k n1 dist have "k = pc\<lparr>moved := True\<rparr>" unfolding cells by (simp split: if_splits)
        with True ty show ?thesis by simp
      next
        case False
        with k n1 have "\<not> (r = row frm \<and> c = 4) \<and> cell b r c = Some k"
          unfolding cells by (simp split: if_splits)
        with False c4 show ?thesis by simp
      qed
    qed
  qed
qed

section \<open>The scenes of a game\<close>

lemma find_Some_set: "find P xs = Some x \<Longrightarrow> x \<in> set xs"
  by (induction xs) (auto split: if_splits)

lemma commitMove_selected:
  assumes "\<not> isResolvingMove s" and "cell (board s) (row frm) (col frm) = Some pc"
  shows "selected (commitMove s frm m) = None"
  using assms by (simp add: commitMove_def split: prod.splits)

lemma sceneInv_commit:
  assumes inv: "sceneInv s" and o: "cell (board s) (row frm) (col frm) = Some pc"
    and m: "m \<in> set (getPseudoMoves (lastMove s) (board s) (row frm) (col frm) pc False)"
  shows "sceneInv (commitMove s frm m)"
proof -
  from inv have nr: "\<not> isResolvingMove s" and k: "kingsInv (board s)"
    by (simp_all add: sceneInv_def)
  have b: "board (commitMove s frm m) = simulateResolvedBoard (board s) frm m"
    using commitMove_board [OF nr o, of m] simulate_eq_resolveCommit [OF o, of m] by simp
  obtain nb ps lt wd where res: "resolveCommit (board s) pc frm m = (nb, ps, lt, wd)"
    by (cases "resolveCommit (board s) pc frm m") auto
  from commitMove_fields(5) [OF nr o res] commitMove_selected [OF nr o, of m]
    kingsInv_simulate [OF k o m]
  show ?thesis unfolding sceneInv_def b by simp
qed

lemma sceneInv_deselect: "sceneInv s \<Longrightarrow> sceneInv (s\<lparr>selected := None, legalMoves := []\<rparr>)"
  by (simp add: sceneInv_def)

lemma sceneInv_select:
  assumes "sceneInv s" and "cell (board s) r c = Some cp"
  shows "sceneInv (s\<lparr>selected := Some \<lparr>row = r, col = c\<rparr>,
                     legalMoves := getLegalMoves (lastMove s) (board s) \<lparr>row = r, col = c\<rparr>\<rparr>)"
proof -
  have "\<And>m. m \<in> set (getLegalMoves (lastMove s) (board s) \<lparr>row = r, col = c\<rparr>) \<Longrightarrow>
      m \<in> set (getPseudoMoves (lastMove s) (board s) r c cp False)"
    using getLegalMoves_iff [of "board s" "\<lparr>row = r, col = c\<rparr>" cp _ "lastMove s"] assms(2)
    by simp
  with assms show ?thesis by (simp add: sceneInv_def list_all_iff)
qed

lemma sceneInv_handleSquareClick:
  assumes inv: "sceneInv s"
  shows "sceneInv (handleSquareClick s r c)"
proof (cases "selected s")
  case None
  then have "handleSquareClick s r c =
      (case cell (board s) r c of
         Some cp \<Rightarrow>
           if color cp = turn s
           then s\<lparr>selected := Some \<lparr>row = r, col = c\<rparr>,
                  legalMoves := getLegalMoves (lastMove s) (board s) \<lparr>row = r, col = c\<rparr>\<rparr>
           else s\<lparr>selected := None, legalMoves := []\<rparr>
       | None \<Rightarrow> s\<lparr>selected := None, legalMoves := []\<rparr>)"
    by (simp add: handleSquareClick_def Let_def)
  then show ?thesis
    using sceneInv_deselect [OF inv] sceneInv_select [OF inv, of r c]
    by (auto split: option.splits)
next
  case (Some sel)
  show ?thesis
  proof (cases "find (\<lambda>move. row move = r \<and> col move = c) (legalMoves s)")
    case None
    with Some have "handleSquareClick s r c =
      (case cell (board s) r c of
         Some cp \<Rightarrow>
           if color cp = turn s
           then s\<lparr>selected := Some \<lparr>row = r, col = c\<rparr>,
                  legalMoves := getLegalMoves (lastMove s) (board s) \<lparr>row = r, col = c\<rparr>\<rparr>
           else s\<lparr>selected := None, legalMoves := []\<rparr>
       | None \<Rightarrow> s\<lparr>selected := None, legalMoves := []\<rparr>)"
      by (simp add: handleSquareClick_def Let_def)
    then show ?thesis
      using sceneInv_deselect [OF inv] sceneInv_select [OF inv, of r c]
      by (auto split: option.splits)
  next
    case (Some mv)
    with \<open>selected s = Some sel\<close> have h: "handleSquareClick s r c = commitMove s sel mv"
      by (simp add: handleSquareClick_def Let_def)
    from find_Some_set [OF Some] have mem: "mv \<in> set (legalMoves s)" .
    from inv \<open>selected s = Some sel\<close> obtain pc where
      pc: "cell (board s) (row sel) (col sel) = Some pc"
      and all: "list_all (\<lambda>m. m \<in> set (getPseudoMoves (lastMove s) (board s)
                                           (row sel) (col sel) pc False)) (legalMoves s)"
      by (auto simp: sceneInv_def split: option.splits)
    from all mem have "mv \<in> set (getPseudoMoves (lastMove s) (board s) (row sel) (col sel) pc False)"
      by (simp add: list_all_iff)
    from sceneInv_commit [OF inv pc this] h show ?thesis by simp
  qed
qed

lemma sceneInv_onPointerDown: "sceneInv s \<Longrightarrow> sceneInv (onPointerDown s r c)"
  by (simp add: onPointerDown_def sceneInv_deselect sceneInv_handleSquareClick)

lemma sceneInv_playClicks: "sceneInv s \<Longrightarrow> sceneInv (playClicks s clicks)"
  by (induction clicks arbitrary: s) (simp_all add: sceneInv_onPointerDown)

lemma sceneInv_initialScene: "sceneInv initialScene"
  by code_simp

lemma sceneInv_game: "sceneInv (playClicks initialScene clicks)"
  by (rule sceneInv_playClicks [OF sceneInv_initialScene])

section \<open>Castling in the positions of a game\<close>

lemma castleAllowed_home:
  assumes "isKingInCheck lm b (color pc) = isSquareAttacked lm b r 4 (enemyOf (color pc))"
  shows "castleAllowed lm b r 4 pc fam 7 =
     (\<not> fam \<and> \<not> moved pc \<and> \<not> isKingInCheck lm b (color pc) \<and>
      rookReady b r pc \<lparr>rookCol = 7, passCols = [5, 6], kingTargetCol = 6, rookTargetCol = 5\<rparr> \<and>
      \<not> blocked b r \<lparr>rookCol = 7, passCols = [5, 6], kingTargetCol = 6, rookTargetCol = 5\<rparr> \<and>
      \<not> list_ex (\<lambda>dangerCol. isSquareAttacked lm b r dangerCol (enemyOf (color pc)))
          (dangerCols \<lparr>rookCol = 7, passCols = [5, 6], kingTargetCol = 6, rookTargetCol = 5\<rparr>))"
    and "castleAllowed lm b r 4 pc fam 0 =
     (\<not> fam \<and> \<not> moved pc \<and> \<not> isKingInCheck lm b (color pc) \<and>
      rookReady b r pc \<lparr>rookCol = 0, passCols = [1, 2, 3], kingTargetCol = 2, rookTargetCol = 3\<rparr> \<and>
      \<not> blocked b r \<lparr>rookCol = 0, passCols = [1, 2, 3], kingTargetCol = 2, rookTargetCol = 3\<rparr> \<and>
      \<not> list_ex (\<lambda>dangerCol. isSquareAttacked lm b r dangerCol (enemyOf (color pc)))
          (dangerCols \<lparr>rookCol = 0, passCols = [1, 2, 3], kingTargetCol = 2, rookTargetCol = 3\<rparr>))"
  unfolding assms
  by (auto simp: castleAllowed_def rookReady_def blocked_def dangerCols_def betweenCols_def
      kingPathCols_def idx8_def split: option.splits)

lemma castleProduced_home:
  assumes "type pc = King"
    and "isKingInCheck lm b (color pc) = isSquareAttacked lm b r 4 (enemyOf (color pc))"
  shows "castleProduced lm b r 4 pc fam 7 = castleAllowed lm b r 4 pc fam 7"
    and "castleProduced lm b r 4 pc fam 0 = castleAllowed lm b r 4 pc fam 0"
  unfolding castleProduced_iff [OF assms(1)] castleAllowed_home [OF assms(2)]
  by (auto simp: castleSides_def)

lemma castle_rook_columns:
  assumes "type pc = King" and "m \<in> set (getPseudoMoves lm b r c pc fam)"
    and "special m = Some Castle"
  shows "rookFromCol m = Some 7 \<or> rookFromCol m = Some 0"
proof -
  from assms king_castle_moves [OF assms(1), of m lm b r c fam]
  obtain side where "side \<in> set castleSides" "m = castleMove r side" by blast
  then show ?thesis by (auto simp: castleSides_def castleMove_def)
qed

lemma castle_commit_home:
  assumes ty: "type pc = King" and wf: "wfBoard (board s)" and nr: "\<not> isResolvingMove s"
    and k: "cell (board s) r 4 = Some pc"
    and mem: "m \<in> set (getPseudoMoves (lastMove s) (board s) r 4 pc False)"
    and sp: "special m = Some Castle"
  shows "\<exists>rc rook d. rookFromCol m = Some rc \<and> cell (board s) r rc = Some rook \<and>
           type rook = Rook \<and> d = (if 4 < rc then 1 else -1) \<and>
           row m = r \<and> col m = 4 + 2 * d \<and>
           cell (board (commitMove s \<lparr>row = r, col = 4\<rparr> m)) r (4 + 2 * d)
             = Some (pc\<lparr>moved := True\<rparr>) \<and>
           cell (board (commitMove s \<lparr>row = r, col = 4\<rparr> m)) r (4 + d)
             = Some (rook\<lparr>moved := True\<rparr>) \<and>
           cell (board (commitMove s \<lparr>row = r, col = 4\<rparr> m)) r 4 = None \<and>
           cell (board (commitMove s \<lparr>row = r, col = 4\<rparr> m)) r rc = None"
proof -
  let ?frm = "\<lparr>row = r, col = 4\<rparr> :: Square"
  have com: "board (commitMove s ?frm m) = fst (resolveCommit (board s) pc ?frm m)"
    using commitMove_board [OF nr, of ?frm pc m] k by simp
  from mem sp king_castle_moves [OF ty, of m "lastMove s" "board s" r 4 False]
  obtain side where side: "side \<in> set castleSides" "m = castleMove r side"
    "rookReady (board s) r pc side" "\<not> blocked (board s) r side" by blast
  from side(3) obtain rook where rook: "cell (board s) r (rookCol side) = Some rook"
    "type rook = Rook"
    by (auto simp: rookReady_def split: option.splits)
  from side(1) consider
      (kingside) "side = \<lparr>rookCol = 7, passCols = [5, 6], kingTargetCol = 6, rookTargetCol = 5\<rparr>"
    | (queenside) "side = \<lparr>rookCol = 0, passCols = [1, 2, 3], kingTargetCol = 2, rookTargetCol = 3\<rparr>"
    by (auto simp: castleSides_def)
  then show ?thesis
  proof cases
    case kingside
    with side(2) have m: "m = \<lparr>row = r, col = 6, special = Some Castle,
        rookFromCol = Some 7, rookToCol = Some 5\<rparr>" by (simp add: castleMove_def)
    from kingside side(4) have free: "cell (board s) r 6 = None" by (simp add: blocked_def)
    from kingside rook have rk: "cell (board s) r 7 = Some rook" by simp
    note cr = castle_relocation [OF wf k ty rk free _ _ _ _ _ _ _ _ _ _ _ _ m]
    show ?thesis
      unfolding com using cr rk rook(2) m by (simp)
  next
    case queenside
    with side(2) have m: "m = \<lparr>row = r, col = 2, special = Some Castle,
        rookFromCol = Some 0, rookToCol = Some 3\<rparr>" by (simp add: castleMove_def)
    from queenside side(4) have free: "cell (board s) r 2 = None" by (simp add: blocked_def)
    from queenside rook have rk: "cell (board s) r 0 = Some rook" by simp
    note cr = castle_relocation [OF wf k ty rk free _ _ _ _ _ _ _ _ _ _ _ _ m]
    show ?thesis
      unfolding com using cr rk rook(2) m by (simp)
  qed
qed

text \<open>
  C5. Let the board be the board of a game, that is of the scene that a sequence of
  clicks makes of the initial scene, and let a king stand on it, on column \<open>c\<close> of row
  \<open>r\<close>. The test \<^verbatim>\<open>isKingInCheck\<close> of the king's colour is the test that this king's
  square is attacked by the opponent. A castle move with the rook of column 7 (of column
  0) is generated exactly when generation is not in attack-map mode, the king has not
  moved, the king is not in check, the square of the king's row on the rook's column
  holds an unmoved rook of the king's colour, every square strictly between king and
  rook is empty, and neither of the two squares that the king crosses, the target
  included, is attacked by the opponent. Every castle move is of one of these two kinds.
  Committing a generated castle move puts the king two columns towards the rook and the
  rook on the column next to the king's origin, both marked moved, and empties the
  squares they left. In attack-map mode, in which the generator also runs on simulated
  boards, no castle move is generated and none is allowed, on any board.
\<close>

theorem castle_generation_and_commit:
  assumes "s = playClicks initialScene clicks"
    and "cell (board s) r c = Some king"
    and "type king = King"
  shows "isKingInCheck lm (board s) (color king)
           = isSquareAttacked lm (board s) r c (enemyOf (color king)) \<and>
         (castleProduced lm (board s) r c king fam 7
            \<longleftrightarrow> castleAllowed lm (board s) r c king fam 7) \<and>
         (castleProduced lm (board s) r c king fam 0
            \<longleftrightarrow> castleAllowed lm (board s) r c king fam 0) \<and>
         (\<forall>m \<in> set (getPseudoMoves lm (board s) r c king fam). special m = Some Castle \<longrightarrow>
            rookFromCol m = Some 7 \<or> rookFromCol m = Some 0) \<and>
         (\<forall>m \<in> set (getPseudoMoves (lastMove s) (board s) r c king False).
            special m = Some Castle \<longrightarrow>
              (\<exists>rc rook d. rookFromCol m = Some rc \<and> cell (board s) r rc = Some rook \<and>
                 type rook = Rook \<and> d = (if c < rc then 1 else -1) \<and>
                 row m = r \<and> col m = c + 2 * d \<and>
                 cell (board (commitMove s \<lparr>row = r, col = c\<rparr> m)) r (c + 2 * d)
                   = Some (king\<lparr>moved := True\<rparr>) \<and>
                 cell (board (commitMove s \<lparr>row = r, col = c\<rparr> m)) r (c + d)
                   = Some (rook\<lparr>moved := True\<rparr>) \<and>
                 cell (board (commitMove s \<lparr>row = r, col = c\<rparr> m)) r c = None \<and>
                 cell (board (commitMove s \<lparr>row = r, col = c\<rparr> m)) r rc = None)) \<and>
         (\<forall>b' r' c' rc. \<not> castleProduced lm b' r' c' king True rc \<and>
            \<not> castleAllowed lm b' r' c' king True rc)"
proof -
  from sceneInv_game [of clicks] assms(1) have "sceneInv s" by simp
  then have inv: "kingsInv (board s)" and nr: "\<not> isResolvingMove s"
    by (simp_all add: sceneInv_def)
  note wf = kingsInvD(1) [OF inv]
  have chk: "\<And>lm. isKingInCheck lm (board s) (color king)
      = isSquareAttacked lm (board s) r c (enemyOf (color king))"
    by (rule king_check_square [OF inv assms(2,3)])
  have home: "c = 4" if "\<not> moved king"
    using kingsInvD(2) [OF inv assms(2,3)] that by simp
  have p1: "castleProduced lm (board s) r c king fam 7
            \<longleftrightarrow> castleAllowed lm (board s) r c king fam 7"
  proof (cases "moved king")
    case True
    then show ?thesis by (simp add: castleProduced_iff [OF assms(3)] castleAllowed_def)
  next
    case False
    from chk [of lm] show ?thesis
      unfolding home [OF False] by (rule castleProduced_home(1) [OF assms(3)])
  qed
  have p2: "castleProduced lm (board s) r c king fam 0
            \<longleftrightarrow> castleAllowed lm (board s) r c king fam 0"
  proof (cases "moved king")
    case True
    then show ?thesis by (simp add: castleProduced_iff [OF assms(3)] castleAllowed_def)
  next
    case False
    from chk [of lm] show ?thesis
      unfolding home [OF False] by (rule castleProduced_home(2) [OF assms(3)])
  qed
  have p3: "\<forall>m \<in> set (getPseudoMoves lm (board s) r c king fam). special m = Some Castle \<longrightarrow>
            rookFromCol m = Some 7 \<or> rookFromCol m = Some 0"
    using castle_rook_columns [OF assms(3)] by blast
  have p4: "\<forall>m \<in> set (getPseudoMoves (lastMove s) (board s) r c king False).
            special m = Some Castle \<longrightarrow>
              (\<exists>rc rook d. rookFromCol m = Some rc \<and> cell (board s) r rc = Some rook \<and>
                 type rook = Rook \<and> d = (if c < rc then 1 else -1) \<and>
                 row m = r \<and> col m = c + 2 * d \<and>
                 cell (board (commitMove s \<lparr>row = r, col = c\<rparr> m)) r (c + 2 * d)
                   = Some (king\<lparr>moved := True\<rparr>) \<and>
                 cell (board (commitMove s \<lparr>row = r, col = c\<rparr> m)) r (c + d)
                   = Some (rook\<lparr>moved := True\<rparr>) \<and>
                 cell (board (commitMove s \<lparr>row = r, col = c\<rparr> m)) r c = None \<and>
                 cell (board (commitMove s \<lparr>row = r, col = c\<rparr> m)) r rc = None)"
  proof (intro ballI impI)
    fix m
    assume mem: "m \<in> set (getPseudoMoves (lastMove s) (board s) r c king False)"
      and sp: "special m = Some Castle"
    from mem sp king_castle_moves [OF assms(3), of m "lastMove s" "board s" r c False]
    have "\<not> moved king" by blast
    from home [OF this] have c4: "c = 4" .
    from castle_commit_home [OF assms(3) wf nr assms(2) [unfolded c4] mem [unfolded c4] sp]
    show "\<exists>rc rook d. rookFromCol m = Some rc \<and> cell (board s) r rc = Some rook \<and>
                 type rook = Rook \<and> d = (if c < rc then 1 else -1) \<and>
                 row m = r \<and> col m = c + 2 * d \<and>
                 cell (board (commitMove s \<lparr>row = r, col = c\<rparr> m)) r (c + 2 * d)
                   = Some (king\<lparr>moved := True\<rparr>) \<and>
                 cell (board (commitMove s \<lparr>row = r, col = c\<rparr> m)) r (c + d)
                   = Some (rook\<lparr>moved := True\<rparr>) \<and>
                 cell (board (commitMove s \<lparr>row = r, col = c\<rparr> m)) r c = None \<and>
                 cell (board (commitMove s \<lparr>row = r, col = c\<rparr> m)) r rc = None"
      unfolding c4 .
  qed
  have p5: "\<forall>b' r' c' rc. \<not> castleProduced lm b' r' c' king True rc \<and>
            \<not> castleAllowed lm b' r' c' king True rc"
    by (simp add: castleProduced_iff [OF assms(3)] castleAllowed_def)
  show ?thesis
    by (rule conjI [OF chk conjI [OF p1 conjI [OF p2 conjI [OF p3 conjI [OF p4 p5]]]]])
qed

theorem castle_generation_and_commit_witness:
  "cell (board (playClicks initialScene castleClicks)) 7 4 = Some (createPiece White King) \<and>
   cell (board (playClicks initialScene castleClicks)) 7 7 = Some (createPiece White Rook) \<and>
   type (createPiece White King) = King \<and>
   castleAllowed (lastMove (playClicks initialScene castleClicks))
     (board (playClicks initialScene castleClicks)) 7 4 (createPiece White King) False 7 \<and>
   castleProduced (lastMove (playClicks initialScene castleClicks))
     (board (playClicks initialScene castleClicks)) 7 4 (createPiece White King) False 7 \<and>
   \<not> castleAllowed (lastMove (playClicks initialScene castleClicks))
     (board (playClicks initialScene castleClicks)) 7 4 (createPiece White King) False 0 \<and>
   \<not> castleProduced (lastMove (playClicks initialScene castleClicks))
     (board (playClicks initialScene castleClicks)) 7 4 (createPiece White King) False 0 \<and>
   cell (board (commitMove (playClicks initialScene castleClicks) \<lparr>row = 7, col = 4\<rparr>
      \<lparr>row = 7, col = 6, special = Some Castle, rookFromCol = Some 7, rookToCol = Some 5\<rparr>))
      7 6 = Some ((createPiece White King)\<lparr>moved := True\<rparr>) \<and>
   cell (board (commitMove (playClicks initialScene castleClicks) \<lparr>row = 7, col = 4\<rparr>
      \<lparr>row = 7, col = 6, special = Some Castle, rookFromCol = Some 7, rookToCol = Some 5\<rparr>))
      7 5 = Some ((createPiece White Rook)\<lparr>moved := True\<rparr>)"
proof -
  let ?s = "playClicks initialScene castleClicks"
  let ?k = "createPiece White King"
  let ?m = "\<lparr>row = 7, col = 6, special = Some Castle, rookFromCol = Some 7,
             rookToCol = Some 5\<rparr> :: Move"
  have h1: "?s = playClicks initialScene castleClicks" by (rule refl)
  have h2: "cell (board ?s) 7 4 = Some ?k" by code_simp
  have h3: "type ?k = King" by code_simp
  have al: "castleAllowed (lastMove ?s) (board ?s) 7 4 ?k False 7" by code_simp
  have nal: "\<not> castleAllowed (lastMove ?s) (board ?s) 7 4 ?k False 0" by code_simp
  have mem: "?m \<in> set (getPseudoMoves (lastMove ?s) (board ?s) 7 4 ?k False)" by code_simp
  have sp: "special ?m = Some Castle" by simp
  have rk: "cell (board ?s) 7 7 = Some (createPiece White Rook)" by code_simp
  note T = castle_generation_and_commit [OF h1 h2 h3, of "lastMove ?s" False]
  from T al have pr: "castleProduced (lastMove ?s) (board ?s) 7 4 ?k False 7" by blast
  from T nal have npr: "\<not> castleProduced (lastMove ?s) (board ?s) 7 4 ?k False 0" by blast
  from T have "\<forall>m \<in> set (getPseudoMoves (lastMove ?s) (board ?s) 7 4 ?k False).
      special m = Some Castle \<longrightarrow>
        (\<exists>rc rook d. rookFromCol m = Some rc \<and> cell (board ?s) 7 rc = Some rook \<and>
           type rook = Rook \<and> d = (if 4 < rc then 1 else -1) \<and>
           row m = 7 \<and> col m = 4 + 2 * d \<and>
           cell (board (commitMove ?s \<lparr>row = 7, col = 4\<rparr> m)) 7 (4 + 2 * d)
             = Some (?k\<lparr>moved := True\<rparr>) \<and>
           cell (board (commitMove ?s \<lparr>row = 7, col = 4\<rparr> m)) 7 (4 + d)
             = Some (rook\<lparr>moved := True\<rparr>) \<and>
           cell (board (commitMove ?s \<lparr>row = 7, col = 4\<rparr> m)) 7 4 = None \<and>
           cell (board (commitMove ?s \<lparr>row = 7, col = 4\<rparr> m)) 7 rc = None)"
    by blast
  from this [THEN bspec, OF mem] sp
  obtain rc rook d where o: "rookFromCol ?m = Some rc" "cell (board ?s) 7 rc = Some rook"
    "d = (if 4 < rc then 1 else -1)"
    "cell (board (commitMove ?s \<lparr>row = 7, col = 4\<rparr> ?m)) 7 (4 + 2 * d) = Some (?k\<lparr>moved := True\<rparr>)"
    "cell (board (commitMove ?s \<lparr>row = 7, col = 4\<rparr> ?m)) 7 (4 + d) = Some (rook\<lparr>moved := True\<rparr>)"
    by blast
  from o(1) have rc: "rc = 7" by simp
  with o(2) rk have rook: "rook = createPiece White Rook" by simp
  from o(3) rc have d: "d = 1" by simp
  from o(4,5) have
    "cell (board (commitMove ?s \<lparr>row = 7, col = 4\<rparr> ?m)) 7 6 = Some (?k\<lparr>moved := True\<rparr>)"
    "cell (board (commitMove ?s \<lparr>row = 7, col = 4\<rparr> ?m)) 7 5
       = Some ((createPiece White Rook)\<lparr>moved := True\<rparr>)"
    unfolding d rook by simp_all
  with h2 rk h3 al pr nal npr show ?thesis by blast
qed

end
